theory Spec2Isabelle
  imports Main "HOL-Library.Word" "HOL-Library.Sublist" "HOL-Library.Multiset"
begin

section \<open>Strings\<close>

text \<open>
  A JavaScript string is a sequence of 16-bit code units.  String literals of the source are
  written \<open>str ''...''\<close>.
\<close>

type_synonym jsstring = "16 word list"

definition cu :: "char \<Rightarrow> 16 word" where
  "cu c = of_char c"

definition str :: "string \<Rightarrow> jsstring" where
  "str s = map cu s"

text \<open>
  \<open>String.prototype.trim\<close> removes the leading and trailing code units that are WhiteSpace or
  LineTerminator: TAB, LF, VT, FF, CR, SP, NBSP, U+1680, U+2000..U+200A, U+2028, U+2029,
  U+202F, U+205F, U+3000 and U+FEFF.
\<close>

definition is_ws :: "16 word \<Rightarrow> bool" where
  "is_ws c = (c \<in> {0x09, 0x0A, 0x0B, 0x0C, 0x0D, 0x20, 0xA0, 0x1680}
      \<or> (0x2000 \<le> c \<and> c \<le> 0x200A)
      \<or> c \<in> {0x2028, 0x2029, 0x202F, 0x205F, 0x3000, 0xFEFF})"

definition trim :: "jsstring \<Rightarrow> jsstring" where
  "trim s = rev (dropWhile is_ws (rev (dropWhile is_ws s)))"

section \<open>Data model (src/App.tsx, first variant)\<close>

text \<open>
  \<open>type Todo = { id: string; text: string; completed: boolean; createdAt: number }\<close>.
  The fields \<open>id\<close> and \<open>text\<close> carry a suffix because the plain names are taken.
  \<open>createdAt\<close> holds \<open>Date.now()\<close>, a whole number of milliseconds.
\<close>

record todo =
  id_t :: jsstring
  text_t :: jsstring
  completed :: bool
  createdAt :: int

datatype FilterType = AllF | ActiveF | CompletedF

text \<open>
  The component state: one field per \<open>useState\<close> hook that the task logic reads or writes
  (\<open>editingId\<close> is \<open>string | null\<close>).  Each handler of the component is a function from the
  state of the current render to the state of the next one.
\<close>

record app_state =
  todos :: "todo list"
  newTodo :: jsstring
  filter_t :: FilterType
  editingId :: "jsstring option"
  editText :: jsstring

definition initial_state :: app_state where
  "initial_state =
     \<lparr>todos = [], newTodo = [], filter_t = AllF, editingId = None, editText = []\<rparr>"

section \<open>Task operations\<close>

text \<open>
  \<open>addTodo\<close>: the two values read from the environment, \<open>crypto.randomUUID()\<close> and
  \<open>Date.now()\<close>, are parameters.
\<close>

definition addTodo :: "jsstring \<Rightarrow> int \<Rightarrow> app_state \<Rightarrow> app_state" where
  "addTodo uuid now st =
     (if trim (newTodo st) \<noteq> [] then
        let newTodoItem =
          \<lparr>id_t = uuid, text_t = trim (newTodo st), completed = False, createdAt = now\<rparr>
        in st\<lparr>todos := todos st @ [newTodoItem], newTodo := []\<rparr>
      else st)"

definition toggleTodo :: "jsstring \<Rightarrow> app_state \<Rightarrow> app_state" where
  "toggleTodo i st =
     st\<lparr>todos := map (\<lambda>t. if id_t t = i then t\<lparr>completed := \<not> completed t\<rparr> else t)
                      (todos st)\<rparr>"

definition deleteTodo :: "jsstring \<Rightarrow> app_state \<Rightarrow> app_state" where
  "deleteTodo i st = st\<lparr>todos := filter (\<lambda>t. id_t t \<noteq> i) (todos st)\<rparr>"

definition startEditing :: "todo \<Rightarrow> app_state \<Rightarrow> app_state" where
  "startEditing t st = st\<lparr>editingId := Some (id_t t), editText := text_t t\<rparr>"

text \<open>
  \<open>saveEdit\<close>: the guard \<open>editingId && editText.trim() !== ''\<close>; \<open>null\<close> and the empty string
  are the falsy values of \<open>editingId\<close>.
\<close>

definition saveEdit :: "app_state \<Rightarrow> app_state" where
  "saveEdit st =
     (case editingId st of
        None \<Rightarrow> st
      | Some i \<Rightarrow>
          if i \<noteq> [] \<and> trim (editText st) \<noteq> [] then
            st\<lparr>todos := map (\<lambda>t. if id_t t = i then t\<lparr>text_t := trim (editText st)\<rparr> else t)
                             (todos st),
               editingId := None\<rparr>
          else st)"

definition cancelEdit :: "app_state \<Rightarrow> app_state" where
  "cancelEdit st = st\<lparr>editingId := None\<rparr>"

text \<open>The handler of the "Clear completed" button.\<close>

definition clearCompleted :: "app_state \<Rightarrow> app_state" where
  "clearCompleted st = st\<lparr>todos := filter (\<lambda>t. \<not> completed t) (todos st)\<rparr>"

section \<open>Views\<close>

definition filterPred :: "FilterType \<Rightarrow> todo \<Rightarrow> bool" where
  "filterPred f t =
     (if f = ActiveF then \<not> completed t else if f = CompletedF then completed t else True)"

text \<open>
  The comparator handed to \<open>sort\<close> in the first variant: by completion status first, then by
  creation time, newest first.
\<close>

definition compareTodos :: "todo \<Rightarrow> todo \<Rightarrow> int" where
  "compareTodos a b =
     (if completed a \<noteq> completed b then (if completed a then 1 else - 1)
      else createdAt b - createdAt a)"

text \<open>
  \<open>Array.prototype.sort\<close> is stable and, for a consistent comparator, returns the one stable
  arrangement in which no element compares greater than a later one.  It is modelled by stable
  insertion: an element goes in front of the first element it does not compare greater than.
\<close>

fun insert_by :: "('a \<Rightarrow> 'a \<Rightarrow> int) \<Rightarrow> 'a \<Rightarrow> 'a list \<Rightarrow> 'a list" where
  "insert_by cmp x [] = [x]"
| "insert_by cmp x (y # ys) = (if cmp x y \<le> 0 then x # y # ys else y # insert_by cmp x ys)"

definition array_sort :: "('a \<Rightarrow> 'a \<Rightarrow> int) \<Rightarrow> 'a list \<Rightarrow> 'a list" where
  "array_sort cmp xs = foldr (insert_by cmp) xs []"

text \<open>\<open>filteredTodos\<close> of the first variant (filter, then sort) and of the other two (filter).\<close>

definition filteredTodos_sorted :: "app_state \<Rightarrow> todo list" where
  "filteredTodos_sorted st =
     array_sort compareTodos (filter (filterPred (filter_t st)) (todos st))"

definition filteredTodos :: "app_state \<Rightarrow> todo list" where
  "filteredTodos st = filter (filterPred (filter_t st)) (todos st)"

definition activeTodoCount :: "app_state \<Rightarrow> nat" where
  "activeTodoCount st = length (filter (\<lambda>t. \<not> completed t) (todos st))"

definition completedTodoCount :: "app_state \<Rightarrow> nat" where
  "completedTodoCount st = length (filter (\<lambda>t. completed t) (todos st))"

text \<open>The order the comparator asks for: incomplete before completed, then newest first.\<close>

definition view_order :: "todo \<Rightarrow> todo \<Rightarrow> bool" where
  "view_order a b =
     ((\<not> completed a \<and> completed b) \<or> (completed a = completed b \<and> createdAt b \<le> createdAt a))"

text \<open>The invariant of the data model: ids pairwise distinct, no empty text.\<close>

definition store_inv :: "todo list \<Rightarrow> bool" where
  "store_inv ts = (distinct (map id_t ts) \<and> list_all (\<lambda>t. text_t t \<noteq> []) ts)"

section \<open>JSON text\<close>

text \<open>
  The values \<open>JSON.parse\<close> returns.  A number literal is kept exactly, as mantissa and decimal
  exponent: \<open>JNumber m e\<close> stands for \<open>m * 10 ^ e\<close>.  Object members stay in the order read.
\<close>

datatype json =
    JNull
  | JBool bool
  | JNumber int int
  | JString jsstring
  | JArray "json list"
  | JObject "(jsstring \<times> json) list"

text \<open>
  The outcome of a parsing step: a value and the unread rest, a syntax error, or no fuel left.
  The recursion of the value grammar is bounded by a fuel argument; \<open>JSON_parse\<close> below supplies
  more than any text can use.
\<close>

datatype 'a res = Ok 'a jsstring | Fail | OutOfFuel

fun bind_res :: "'a res \<Rightarrow> ('a \<Rightarrow> jsstring \<Rightarrow> 'b res) \<Rightarrow> 'b res" where
  "bind_res (Ok x r) f = f x r"
| "bind_res Fail f = Fail"
| "bind_res OutOfFuel f = OutOfFuel"

definition dquote :: "16 word" where
  "dquote = 0x22"

definition backslash :: "16 word" where
  "backslash = 0x5C"

text \<open>JSON white space is SP, TAB, LF and CR.\<close>

definition is_json_ws :: "16 word \<Rightarrow> bool" where
  "is_json_ws c = (c = 0x20 \<or> c = 0x09 \<or> c = 0x0A \<or> c = 0x0D)"

definition skip_ws :: "jsstring \<Rightarrow> jsstring" where
  "skip_ws s = dropWhile is_json_ws s"

definition is_digit :: "16 word \<Rightarrow> bool" where
  "is_digit c = (0x30 \<le> c \<and> c \<le> 0x39)"

definition digit_val :: "16 word \<Rightarrow> int" where
  "digit_val c = uint c - 48"

definition hex_val :: "16 word \<Rightarrow> nat option" where
  "hex_val c =
     (if 0x30 \<le> c \<and> c \<le> 0x39 then Some (unat c - 48)
      else if 0x61 \<le> c \<and> c \<le> 0x66 then Some (unat c - 87)
      else if 0x41 \<le> c \<and> c \<le> 0x46 then Some (unat c - 55)
      else None)"

definition hex4 :: "16 word \<Rightarrow> 16 word \<Rightarrow> 16 word \<Rightarrow> 16 word \<Rightarrow> 16 word option" where
  "hex4 a b c d =
     (case (hex_val a, hex_val b, hex_val c, hex_val d) of
        (Some x, Some y, Some z, Some w) \<Rightarrow> Some (of_nat (((x * 16 + y) * 16 + z) * 16 + w))
      | _ \<Rightarrow> None)"

text \<open>The single-character escapes of a JSON string.\<close>

definition unescape :: "16 word \<Rightarrow> 16 word option" where
  "unescape e =
     (if e = dquote then Some dquote
      else if e = backslash then Some backslash
      else if e = cu CHR ''/'' then Some (cu CHR ''/'')
      else if e = cu CHR ''b'' then Some 0x08
      else if e = cu CHR ''f'' then Some 0x0C
      else if e = cu CHR ''n'' then Some 0x0A
      else if e = cu CHR ''r'' then Some 0x0D
      else if e = cu CHR ''t'' then Some 0x09
      else None)"

text \<open>
  The characters of a string after its opening quote, up to the closing quote: escapes are
  decoded, a raw control character (below U+0020) is an error, and so is the end of the text.
\<close>

fun parse_chars :: "jsstring \<Rightarrow> jsstring res" where
  "parse_chars [] = Fail"
| "parse_chars (c # cs) =
     (if c = dquote then Ok [] cs
      else if c = backslash then
        (case cs of
           [] \<Rightarrow> Fail
         | e # cs' \<Rightarrow>
             if e = cu CHR ''u'' then
               (case cs' of
                  h1 # h2 # h3 # h4 # cs'' \<Rightarrow>
                    (case hex4 h1 h2 h3 h4 of
                       Some u \<Rightarrow> bind_res (parse_chars cs'') (\<lambda>x r. Ok (u # x) r)
                     | None \<Rightarrow> Fail)
                | _ \<Rightarrow> Fail)
             else
               (case unescape e of
                  Some u \<Rightarrow> bind_res (parse_chars cs') (\<lambda>x r. Ok (u # x) r)
                | None \<Rightarrow> Fail))
      else if c < 0x20 then Fail
      else bind_res (parse_chars cs) (\<lambda>x r. Ok (c # x) r))"

text \<open>
  A number is \<open>-? (0 | [1-9][0-9]*) (. [0-9]+)? ([eE] [+-]? [0-9]+)?\<close>.  An integer part with a
  superfluous leading zero is reported here; the digit that follows it could not continue any
  JSON text.
\<close>

definition int_of_digits :: "jsstring \<Rightarrow> int" where
  "int_of_digits ds = foldl (\<lambda>n c. 10 * n + digit_val c) 0 ds"

definition parse_sign :: "jsstring \<Rightarrow> bool \<times> jsstring" where
  "parse_sign s =
     (case s of
        [] \<Rightarrow> (False, [])
      | c # r \<Rightarrow> if c = cu CHR ''-'' then (True, r) else (False, s))"

definition parse_fraction :: "jsstring \<Rightarrow> (jsstring \<times> jsstring) option" where
  "parse_fraction s =
     (case s of
        [] \<Rightarrow> Some ([], [])
      | c # r \<Rightarrow>
          if c = cu CHR ''.'' then
            (if takeWhile is_digit r = [] then None
             else Some (takeWhile is_digit r, dropWhile is_digit r))
          else Some ([], s))"

definition parse_exponent :: "jsstring \<Rightarrow> (int \<times> jsstring) option" where
  "parse_exponent s =
     (case s of
        [] \<Rightarrow> Some (0, [])
      | c # r \<Rightarrow>
          if c = cu CHR ''e'' \<or> c = cu CHR ''E'' then
            (let (neg, r') =
               (case r of
                  [] \<Rightarrow> (False, [])
                | d # r2 \<Rightarrow>
                    if d = cu CHR ''+'' then (False, r2)
                    else if d = cu CHR ''-'' then (True, r2)
                    else (False, r))
             in if takeWhile is_digit r' = [] then None
                else Some ((if neg then - 1 else 1) * int_of_digits (takeWhile is_digit r'),
                           dropWhile is_digit r'))
          else Some (0, s))"

definition parse_number :: "jsstring \<Rightarrow> json res" where
  "parse_number s =
     (let (neg, s1) = parse_sign s;
          ds = takeWhile is_digit s1
      in if ds = [] \<or> (1 < length ds \<and> hd ds = cu CHR ''0'') then Fail
         else
           (case parse_fraction (dropWhile is_digit s1) of
              None \<Rightarrow> Fail
            | Some (fs, s2) \<Rightarrow>
                (case parse_exponent s2 of
                   None \<Rightarrow> Fail
                 | Some (e, s3) \<Rightarrow>
                     Ok (JNumber ((if neg then - 1 else 1) * int_of_digits (ds @ fs))
                                 (e - int (length fs))) s3)))"

definition parse_literal :: "jsstring \<Rightarrow> json res" where
  "parse_literal s =
     (if take 4 s = str ''true'' then Ok (JBool True) (drop 4 s)
      else if take 5 s = str ''false'' then Ok (JBool False) (drop 5 s)
      else if take 4 s = str ''null'' then Ok JNull (drop 4 s)
      else Fail)"

text \<open>
  A value, the elements of an array after \<open>[\<close>, and the members of an object after \<open>{\<close>.
\<close>

fun parse_value :: "nat \<Rightarrow> jsstring \<Rightarrow> json res"
and parse_elements :: "nat \<Rightarrow> jsstring \<Rightarrow> json list res"
and parse_members :: "nat \<Rightarrow> jsstring \<Rightarrow> (jsstring \<times> json) list res"
where
  "parse_value 0 s = OutOfFuel"
| "parse_value (Suc n) s =
     (case skip_ws s of
        [] \<Rightarrow> Fail
      | c # r \<Rightarrow>
          if c = cu CHR ''{'' then
            (case skip_ws r of
               [] \<Rightarrow> Fail
             | d # r' \<Rightarrow>
                 if d = cu CHR ''}'' then Ok (JObject []) r'
                 else bind_res (parse_members n (d # r')) (\<lambda>ms r''. Ok (JObject ms) r''))
          else if c = cu CHR ''['' then
            (case skip_ws r of
               [] \<Rightarrow> Fail
             | d # r' \<Rightarrow>
                 if d = cu CHR '']'' then Ok (JArray []) r'
                 else bind_res (parse_elements n (d # r')) (\<lambda>vs r''. Ok (JArray vs) r''))
          else if c = dquote then bind_res (parse_chars r) (\<lambda>x r'. Ok (JString x) r')
          else if c = cu CHR ''-'' \<or> is_digit c then parse_number (c # r)
          else parse_literal (c # r))"
| "parse_elements 0 s = OutOfFuel"
| "parse_elements (Suc n) s =
     bind_res (parse_value n s) (\<lambda>v r.
       case skip_ws r of
         [] \<Rightarrow> Fail
       | c # r' \<Rightarrow>
           if c = cu CHR '','' then bind_res (parse_elements n r') (\<lambda>vs r''. Ok (v # vs) r'')
           else if c = cu CHR '']'' then Ok [v] r'
           else Fail)"
| "parse_members 0 s = OutOfFuel"
| "parse_members (Suc n) s =
     (case skip_ws s of
        [] \<Rightarrow> Fail
      | q # r \<Rightarrow>
          if q = dquote then
            bind_res (parse_chars r) (\<lambda>k r1.
              case skip_ws r1 of
                [] \<Rightarrow> Fail
              | c # r2 \<Rightarrow>
                  if c = cu CHR '':'' then
                    bind_res (parse_value n r2) (\<lambda>v r3.
                      case skip_ws r3 of
                        [] \<Rightarrow> Fail
                      | d # r4 \<Rightarrow>
                          if d = cu CHR '','' then
                            bind_res (parse_members n r4) (\<lambda>ms r5. Ok ((k, v) # ms) r5)
                          else if d = cu CHR ''}'' then Ok [(k, v)] r4
                          else Fail)
                  else Fail)
          else Fail)"

text \<open>
  What can go wrong in the load effect: \<open>JSON.parse\<close> throws \<open>SyntaxError\<close>; \<open>FuelExhausted\<close> is the
  model running out of fuel (shown below never to happen); \<open>NotTodoArray v\<close> says that the text
  parsed to a value \<open>v\<close> other than what \<open>JSON.stringify\<close> writes for a \<open>Todo[]\<close>.  In that
  last case the source raises nothing: \<open>setTodos\<close> stores the value unchecked, and this model,
  whose state holds a \<open>todo list\<close>, does not follow it further.
\<close>

datatype error = SyntaxError | FuelExhausted | NotTodoArray json

text \<open>\<open>JSON.parse\<close>: one value, white space around it, and nothing else.\<close>

definition JSON_parse :: "jsstring \<Rightarrow> error + json" where
  "JSON_parse s =
     (case parse_value (2 * length s + 1) s of
        Ok v r \<Rightarrow> if skip_ws r = [] then Inr v else Inl SyntaxError
      | Fail \<Rightarrow> Inl SyntaxError
      | OutOfFuel \<Rightarrow> Inl FuelExhausted)"

subsection \<open>Writing\<close>

text \<open>
  \<open>JSON.stringify\<close> on a value of type \<open>Todo[]\<close>.  \<open>QuoteJSONString\<close> escapes the quote, the
  backslash, the control characters and every surrogate code unit that is not part of a pair.
\<close>

definition hex_digit :: "nat \<Rightarrow> 16 word" where
  "hex_digit n = (if n < 10 then of_nat (48 + n) else of_nat (87 + n))"

definition unicode_escape :: "16 word \<Rightarrow> jsstring" where
  "unicode_escape c =
     [backslash, cu CHR ''u'',
      hex_digit (unat c div 4096), hex_digit (unat c div 256 mod 16),
      hex_digit (unat c div 16 mod 16), hex_digit (unat c mod 16)]"

definition is_surrogate :: "16 word \<Rightarrow> bool" where
  "is_surrogate c = (0xD800 \<le> c \<and> c \<le> 0xDFFF)"

definition is_leading :: "16 word \<Rightarrow> bool" where
  "is_leading c = (0xD800 \<le> c \<and> c \<le> 0xDBFF)"

definition is_trailing :: "16 word \<Rightarrow> bool" where
  "is_trailing c = (0xDC00 \<le> c \<and> c \<le> 0xDFFF)"

definition quote_unit :: "16 word \<Rightarrow> jsstring" where
  "quote_unit c =
     (if c = 0x08 then [backslash, cu CHR ''b'']
      else if c = 0x09 then [backslash, cu CHR ''t'']
      else if c = 0x0A then [backslash, cu CHR ''n'']
      else if c = 0x0C then [backslash, cu CHR ''f'']
      else if c = 0x0D then [backslash, cu CHR ''r'']
      else if c = dquote then [backslash, dquote]
      else if c = backslash then [backslash, backslash]
      else if c < 0x20 \<or> is_surrogate c then unicode_escape c
      else [c])"

fun quote_units :: "jsstring \<Rightarrow> jsstring" where
  "quote_units [] = []"
| "quote_units [c] = quote_unit c"
| "quote_units (c # d # cs) =
     (if is_leading c \<and> is_trailing d then c # d # quote_units cs
      else quote_unit c @ quote_units (d # cs))"

definition QuoteJSONString :: "jsstring \<Rightarrow> jsstring" where
  "QuoteJSONString s = dquote # quote_units s @ [dquote]"

text \<open>
  \<open>Number::toString\<close> on a whole number below \<open>10^21\<close> in magnitude: its decimal digits.
\<close>

fun digits_of :: "nat \<Rightarrow> jsstring" where
  "digits_of n =
     (if n < 10 then [of_nat (48 + n)] else digits_of (n div 10) @ [of_nat (48 + n mod 10)])"

declare digits_of.simps [simp del]

definition number_to_string :: "int \<Rightarrow> jsstring" where
  "number_to_string n =
     (if n < 0 then cu CHR ''-'' # digits_of (nat (- n)) else digits_of (nat n))"

definition property :: "string \<Rightarrow> jsstring \<Rightarrow> jsstring" where
  "property k v = QuoteJSONString (str k) @ cu CHR '':'' # v"

definition stringify_todo :: "todo \<Rightarrow> jsstring" where
  "stringify_todo t =
     cu CHR ''{'' # property ''id'' (QuoteJSONString (id_t t))
       @ cu CHR '','' # property ''text'' (QuoteJSONString (text_t t))
       @ cu CHR '','' # property ''completed'' (if completed t then str ''true'' else str ''false'')
       @ cu CHR '','' # property ''createdAt'' (number_to_string (createdAt t))
       @ [cu CHR ''}'']"

fun join_comma :: "jsstring list \<Rightarrow> jsstring" where
  "join_comma [] = []"
| "join_comma [x] = x"
| "join_comma (x # y # ys) = x @ cu CHR '','' # join_comma (y # ys)"

definition JSON_stringify :: "todo list \<Rightarrow> jsstring" where
  "JSON_stringify ts = cu CHR ''['' # join_comma (map stringify_todo ts) @ [cu CHR '']'']"

subsection \<open>From a parsed value to the state\<close>

text \<open>The value that the text written for a task parses to.\<close>

definition json_of_todo :: "todo \<Rightarrow> json" where
  "json_of_todo t =
     JObject [(str ''id'', JString (id_t t)), (str ''text'', JString (text_t t)),
              (str ''completed'', JBool (completed t)),
              (str ''createdAt'', JNumber (createdAt t) 0)]"

text \<open>
  The whole number a literal denotes, if it denotes one; whole numbers up to \<open>2^53 - 1\<close> in
  magnitude are the ones a JavaScript number holds exactly.
\<close>

definition int_of_number :: "int \<Rightarrow> int \<Rightarrow> int option" where
  "int_of_number m e =
     (if 0 \<le> e then Some (m * 10 ^ nat e)
      else if m mod 10 ^ nat (- e) = 0 then Some (m div 10 ^ nat (- e))
      else None)"

definition is_safe_integer :: "int \<Rightarrow> bool" where
  "is_safe_integer n = (\<bar>n\<bar> \<le> 2 ^ 53 - 1)"

text \<open>
  The task an object stands for, when the object has the four properties of \<open>Todo\<close> in the
  order \<open>JSON.stringify\<close> writes them.
\<close>

definition todo_of_json :: "json \<Rightarrow> todo option" where
  "todo_of_json v =
     (case v of
        JObject ms \<Rightarrow>
          if map fst ms = [str ''id'', str ''text'', str ''completed'', str ''createdAt''] then
            (case map snd ms of
               [JString i, JString x, JBool c, JNumber m e] \<Rightarrow>
                 (case int_of_number m e of
                    Some n \<Rightarrow>
                      if is_safe_integer n
                      then Some \<lparr>id_t = i, text_t = x, completed = c, createdAt = n\<rparr>
                      else None
                  | None \<Rightarrow> None)
             | _ \<Rightarrow> None)
          else None
      | _ \<Rightarrow> None)"

definition todos_of_json :: "json \<Rightarrow> todo list option" where
  "todos_of_json v = (case v of JArray vs \<Rightarrow> those (map todo_of_json vs) | _ \<Rightarrow> None)"

section \<open>Persistence\<close>

text \<open>
  \<open>localStorage\<close> maps keys to strings; \<open>getItem\<close> of a missing key is \<open>null\<close>.  The load effect
  runs \<open>setTodos(JSON.parse(savedTodos))\<close> when \<open>savedTodos\<close> is truthy, that is neither \<open>null\<close>
  nor the empty string; nothing catches what \<open>JSON.parse\<close> throws.  The save effect writes
  \<open>JSON.stringify(todos)\<close> under the same key.
\<close>

type_synonym storage = "jsstring \<rightharpoonup> jsstring"

definition loadTodos :: "storage \<Rightarrow> app_state \<Rightarrow> error + app_state" where
  "loadTodos ls st =
     (case ls (str ''todos'') of
        None \<Rightarrow> Inr st
      | Some savedTodos \<Rightarrow>
          if savedTodos = [] then Inr st
          else
            (case JSON_parse savedTodos of
               Inl e \<Rightarrow> Inl e
             | Inr v \<Rightarrow>
                 (case todos_of_json v of
                    Some ts \<Rightarrow> Inr (st\<lparr>todos := ts\<rparr>)
                  | None \<Rightarrow> Inl (NotTodoArray v))))"

definition saveTodos :: "app_state \<Rightarrow> storage \<Rightarrow> storage" where
  "saveTodos st ls = ls(str ''todos'' \<mapsto> JSON_stringify (todos st))"

section \<open>Example data\<close>

definition task_a :: todo where
  "task_a = \<lparr>id_t = str ''a'', text_t = str ''Buy milk'', completed = False, createdAt = 1000\<rparr>"

definition task_b :: todo where
  "task_b = \<lparr>id_t = str ''b'', text_t = str ''Call Bob'', completed = True, createdAt = 2000\<rparr>"

definition task_c :: todo where
  "task_c = \<lparr>id_t = str ''c'', text_t = str ''Pay rent'', completed = False, createdAt = 3000\<rparr>"

definition example_state :: app_state where
  "example_state = initial_state\<lparr>todos := [task_a, task_b, task_c]\<rparr>"

text \<open>A state with a pending input and an open edit session on the first task.\<close>

definition busy_state :: app_state where
  "busy_state =
     example_state\<lparr>newTodo := str '' Walk dog '', editingId := Some (str ''a''),
                   editText := str ''Buy oat milk''\<rparr>"

text \<open>Two tasks that carry the same id.\<close>

definition twin_state :: app_state where
  "twin_state =
     initial_state\<lparr>todos := [task_a, \<lparr>id_t = str ''a'', text_t = str ''Pay rent'',
                                       completed = True, createdAt = 2000\<rparr>]\<rparr>"

section \<open>Facts about sorting\<close>

lemma mset_insert_by: "mset (insert_by cmp x ys) = add_mset x (mset ys)"
  by (induction ys) auto

lemma mset_array_sort: "mset (array_sort cmp xs) = mset xs"
  unfolding array_sort_def by (induction xs) (auto simp: mset_insert_by)

lemma set_array_sort: "set (array_sort cmp xs) = set xs"
  using mset_array_sort [of cmp xs] by (metis set_mset_mset)

lemma view_order_compare: "view_order a b = (compareTodos a b \<le> 0)"
  by (auto simp: view_order_def compareTodos_def)

lemma view_order_trans: "view_order a b \<Longrightarrow> view_order b c \<Longrightarrow> view_order a c"
  by (auto simp: view_order_def)

lemma view_order_total: "view_order a b \<or> view_order b a"
  by (auto simp: view_order_def)

lemma set_insert_by: "set (insert_by cmp x ys) = insert x (set ys)"
  by (induction ys) auto

lemma sorted_insert_by:
  "sorted_wrt view_order ys \<Longrightarrow> sorted_wrt view_order (insert_by compareTodos x ys)"
proof (induction ys)
  case Nil
  then show ?case by simp
next
  case (Cons y ys)
  show ?case
  proof (cases "compareTodos x y \<le> 0")
    case True
    then have xy: "view_order x y" by (simp add: view_order_compare)
    have "\<forall>z\<in>set ys. view_order x z"
      using Cons.prems xy view_order_trans by auto
    with True xy Cons.prems show ?thesis by simp
  next
    case False
    then have "view_order y x"
      using view_order_total [of x y] by (simp add: view_order_compare)
    with False Cons show ?thesis by (auto simp: set_insert_by)
  qed
qed

lemma sorted_array_sort: "sorted_wrt view_order (array_sort compareTodos xs)"
proof (induction xs)
  case Nil
  then show ?case by (simp add: array_sort_def)
next
  case (Cons x xs)
  then show ?case
    using sorted_insert_by [of "array_sort compareTodos xs" x] by (simp add: array_sort_def)
qed

lemma array_sort_sorted:
  "sorted_wrt view_order xs \<Longrightarrow> array_sort compareTodos xs = xs"
proof (induction xs)
  case Nil
  then show ?case by (simp add: array_sort_def)
next
  case (Cons x xs)
  then have "array_sort compareTodos (x # xs) = insert_by compareTodos x xs"
    by (simp add: array_sort_def)
  also have "\<dots> = x # xs"
    using Cons.prems by (cases xs) (simp_all add: view_order_compare)
  finally show ?case .
qed

text \<open>Stability: tasks that tie under the comparator keep their relative order.\<close>

lemma filter_insert_by_other:
  "\<not> P x \<Longrightarrow> filter P (insert_by cmp x ys) = filter P ys"
  by (induction ys) auto

lemma filter_insert_by_tie:
  assumes "P x" and "\<forall>y\<in>set ys. P y \<longrightarrow> cmp x y \<le> 0"
  shows "filter P (insert_by cmp x ys) = x # filter P ys"
  using assms
proof (induction ys)
  case Nil
  then show ?case by simp
next
  case (Cons y ys)
  then show ?case by (cases "P y") auto
qed

lemma stable_array_sort:
  "filter (\<lambda>t. completed t = c \<and> createdAt t = k) (array_sort compareTodos xs)
     = filter (\<lambda>t. completed t = c \<and> createdAt t = k) xs"
proof (induction xs)
  case Nil
  then show ?case by (simp add: array_sort_def)
next
  case (Cons x xs)
  let ?P = "\<lambda>t. completed t = c \<and> createdAt t = k"
  have step: "array_sort compareTodos (x # xs) = insert_by compareTodos x (array_sort compareTodos xs)"
    by (simp add: array_sort_def)
  show ?case
  proof (cases "?P x")
    case True
    have "\<forall>y\<in>set (array_sort compareTodos xs). ?P y \<longrightarrow> compareTodos x y \<le> 0"
      using True by (auto simp: compareTodos_def)
    then have "filter ?P (insert_by compareTodos x (array_sort compareTodos xs))
                 = x # filter ?P (array_sort compareTodos xs)"
      using True filter_insert_by_tie [of ?P x "array_sort compareTodos xs" compareTodos] by blast
    with True Cons step show ?thesis by simp
  next
    case False
    then show ?thesis
      using Cons step filter_insert_by_other [of ?P x compareTodos "array_sort compareTodos xs"]
      by simp
  qed
qed

section \<open>Facts about JSON text\<close>

lemma unat_of_nat16: "k < 65536 \<Longrightarrow> unat (of_nat k :: 16 word) = k"
  by (simp add: unat_of_nat)

lemma unat_hex_digit: "n < 16 \<Longrightarrow> unat (hex_digit n) = (if n < 10 then 48 + n else 87 + n)"
  by (simp add: hex_digit_def unat_of_nat16 del: of_nat_add)

lemma hex_val_hex_digit: "n < 16 \<Longrightarrow> hex_val (hex_digit n) = Some n"
  by (simp add: hex_val_def word_le_nat_alt unat_hex_digit)

lemma hex_split:
  fixes n :: nat
  shows "((n div 4096 * 16 + n div 256 mod 16) * 16 + n div 16 mod 16) * 16 + n mod 16 = n"
proof -
  have a: "n div 4096 = n div 256 div 16"
    using div_mult2_eq [of n 256 16] by simp
  have b: "n div 256 = n div 16 div 16"
    using div_mult2_eq [of n 16 16] by simp
  have "n div 4096 * 16 + n div 256 mod 16 = n div 256"
    unfolding a by (rule div_mult_mod_eq)
  moreover have "n div 256 * 16 + n div 16 mod 16 = n div 16"
    unfolding b by (rule div_mult_mod_eq)
  moreover have "n div 16 * 16 + n mod 16 = n"
    by (rule div_mult_mod_eq)
  ultimately show ?thesis by simp
qed

lemma hex4_unicode:
  "hex4 (hex_digit (unat c div 4096)) (hex_digit (unat c div 256 mod 16))
        (hex_digit (unat c div 16 mod 16)) (hex_digit (unat c mod 16)) = Some c"
proof -
  have lt: "unat c < 65536" using unsigned_less [of c] by simp
  then have a: "unat c div 4096 < 16" by simp
  have "((unat c div 4096 * 16 + unat c div 256 mod 16) * 16 + unat c div 16 mod 16) * 16
          + unat c mod 16 = unat c"
    by (rule hex_split)
  then show ?thesis
    using a by (simp add: hex4_def hex_val_hex_digit)
qed

lemma cu_simps:
  "cu CHR ''u'' = 0x75" "cu CHR ''b'' = 0x62" "cu CHR ''t'' = 0x74" "cu CHR ''n'' = 0x6E"
  "cu CHR ''f'' = 0x66" "cu CHR ''r'' = 0x72" "cu CHR ''/'' = 0x2F"
  by (simp_all add: cu_def)

lemma parse_chars_escape:
  "parse_chars (unicode_escape c @ r) = bind_res (parse_chars r) (\<lambda>x r'. Ok (c # x) r')"
  by (simp add: unicode_escape_def hex4_unicode dquote_def backslash_def)

lemma parse_chars_quote_unit:
  "parse_chars (quote_unit c @ r) = bind_res (parse_chars r) (\<lambda>x r'. Ok (c # x) r')"
  by (simp add: quote_unit_def parse_chars_escape dquote_def backslash_def unescape_def cu_simps)

lemma parse_chars_pair:
  "is_leading c \<Longrightarrow> parse_chars (c # r) = bind_res (parse_chars r) (\<lambda>x r'. Ok (c # x) r')"
  "is_trailing c \<Longrightarrow> parse_chars (c # r) = bind_res (parse_chars r) (\<lambda>x r'. Ok (c # x) r')"
  by (auto simp: is_leading_def is_trailing_def dquote_def backslash_def word_le_nat_alt word_less_nat_alt)

lemma parse_chars_quote_units:
  "parse_chars (quote_units s @ dquote # r) = Ok s r"
proof (induction s rule: quote_units.induct)
  case 1
  then show ?case by simp
next
  case (2 c)
  then show ?case by (simp add: parse_chars_quote_unit)
next
  case (3 c d cs)
  show ?case
  proof (cases "is_leading c \<and> is_trailing d")
    case True
    with 3 have "parse_chars (quote_units cs @ dquote # r) = Ok cs r" by simp
    with True show ?thesis
      by (simp add: parse_chars_pair del: parse_chars.simps)
  next
    case False
    with 3 have "parse_chars (quote_units (d # cs) @ dquote # r) = Ok (d # cs) r" by simp
    with False show ?thesis
      by (auto simp add: parse_chars_quote_unit simp del: parse_chars.simps)
  qed
qed

lemma is_digit_of_nat: "k < 10 \<Longrightarrow> is_digit (of_nat (48 + k))"
  by (simp add: is_digit_def word_le_nat_alt unat_of_nat16 del: of_nat_add)

lemma digit_val_of_nat: "k < 10 \<Longrightarrow> digit_val (of_nat (48 + k)) = int k"
proof -
  assume "k < 10"
  then have "unat (of_nat (48 + k) :: 16 word) = 48 + k"
    by (simp add: unat_of_nat16 del: of_nat_add)
  then have "uint (of_nat (48 + k) :: 16 word) = int (48 + k)"
    by (metis uint_nat)  
  then show ?thesis by (simp add: digit_val_def del: of_nat_add)
qed

lemma digits_of_digits: "c \<in> set (digits_of n) \<Longrightarrow> is_digit c"
proof (induction n arbitrary: c rule: digits_of.induct)
  case (1 n)
  then show ?case
    by (subst (asm) (2) digits_of.simps) (auto simp: is_digit_of_nat simp del: of_nat_add split: if_splits)
qed

lemma digits_of_nonempty: "digits_of n \<noteq> []"
  by (subst digits_of.simps) simp

lemma int_of_digits_snoc: "int_of_digits (ds @ [c]) = 10 * int_of_digits ds + digit_val c"
  by (simp add: int_of_digits_def)

lemma int_of_digits_digits_of: "int_of_digits (digits_of n) = int n"
proof (induction n rule: digits_of.induct)
  case (1 n)
  show ?case
  proof (cases "n < 10")
    case True
    then show ?thesis
      by (subst digits_of.simps) (simp add: int_of_digits_def digit_val_of_nat del: of_nat_add)
  next
    case False
    then have "int_of_digits (digits_of (n div 10)) = int (n div 10)" using 1 by simp
    moreover have "digit_val (of_nat (48 + n mod 10)) = int (n mod 10)"
      by (rule digit_val_of_nat) simp
    moreover have "10 * int (n div 10) + int (n mod 10) = int n"
      by presburger
    ultimately show ?thesis
      using False
      by (subst digits_of.simps) (simp add: int_of_digits_snoc del: of_nat_add)
  qed
qed

lemma hd_digits_of: "0 < n \<Longrightarrow> hd (digits_of n) \<noteq> 0x30"
proof (induction n rule: digits_of.induct)
  case (1 n)
  show ?case
  proof (cases "n < 10")
    case True
    then have "unat (of_nat (48 + n) :: 16 word) = 48 + n"
      by (simp add: unat_of_nat16 del: of_nat_add)
    then have "unat (of_nat (48 + n) :: 16 word) \<noteq> unat (0x30 :: 16 word)"
      using 1(2) by simp
    then have "(of_nat (48 + n) :: 16 word) \<noteq> 0x30"
      by metis
    with True show ?thesis by (subst digits_of.simps) (simp del: of_nat_add)
  next
    case False
    then have "0 < n div 10" by simp
    with 1 False have "hd (digits_of (n div 10)) \<noteq> 0x30" by simp
    with False show ?thesis
      by (subst digits_of.simps) (simp add: digits_of_nonempty)
  qed
qed

lemma takeWhile_digits_of:
  "\<not> is_digit c \<Longrightarrow> takeWhile is_digit (digits_of k @ c # r) = digits_of k"
  by (simp add: takeWhile_append2 digits_of_digits)

lemma dropWhile_digits_of:
  "\<not> is_digit c \<Longrightarrow> dropWhile is_digit (digits_of k @ c # r) = c # r"
  by (simp add: dropWhile_append2 digits_of_digits)

lemma no_leading_zero: "\<not> (1 < length (digits_of k) \<and> hd (digits_of k) = cu CHR ''0'')"
proof (cases "k = 0")
  case True
  then show ?thesis by (subst digits_of.simps) simp
next
  case False
  then show ?thesis using hd_digits_of [of k] by (simp add: cu_def)
qed

lemma parse_sign_digits: "parse_sign (digits_of k @ r) = (False, digits_of k @ r)"
proof -
  obtain d ds where ds: "digits_of k = d # ds"
    using digits_of_nonempty [of k] by (cases "digits_of k") auto
  then have "is_digit d" using digits_of_digits [of d k] by simp
  then have "d \<noteq> cu CHR ''-''" by (auto simp: is_digit_def cu_def)
  with ds show ?thesis by (simp add: parse_sign_def)
qed

lemma parse_number_digits_of:
  assumes "\<not> is_digit c" "c \<noteq> cu CHR ''.''" "c \<noteq> cu CHR ''e''" "c \<noteq> cu CHR ''E''"
  shows "parse_number (digits_of k @ c # r) = Ok (JNumber (int k) 0) (c # r)"
  using assms no_leading_zero [of k]
  by (simp add: Let_def parse_number_def parse_sign_digits takeWhile_digits_of dropWhile_digits_of
      digits_of_nonempty parse_fraction_def parse_exponent_def int_of_digits_digits_of)

lemma parse_number_minus_digits_of:
  assumes "\<not> is_digit c" "c \<noteq> cu CHR ''.''" "c \<noteq> cu CHR ''e''" "c \<noteq> cu CHR ''E''"
  shows "parse_number (cu CHR ''-'' # digits_of k @ c # r) = Ok (JNumber (- int k) 0) (c # r)"
  using assms no_leading_zero [of k]
  by (simp add: Let_def parse_number_def parse_sign_def takeWhile_digits_of dropWhile_digits_of
      digits_of_nonempty parse_fraction_def parse_exponent_def int_of_digits_digits_of)

lemma parse_number_to_string:
  assumes "\<not> is_digit c" "c \<noteq> cu CHR ''.''" "c \<noteq> cu CHR ''e''" "c \<noteq> cu CHR ''E''"
  shows "parse_number (number_to_string n @ c # r) = Ok (JNumber n 0) (c # r)"
  using assms
  by (simp add: number_to_string_def parse_number_digits_of parse_number_minus_digits_of)

lemma parse_value_number:
  assumes "c = cu CHR ''-'' \<or> is_digit c"
  shows "parse_value (Suc k) (c # r) = parse_number (c # r)"
proof -
  from assms have "\<not> is_json_ws c \<and> c \<noteq> cu CHR ''{'' \<and> c \<noteq> cu CHR ''['' \<and> c \<noteq> dquote"
    by (auto simp: is_json_ws_def is_digit_def cu_def dquote_def)
  with assms show ?thesis by (simp add: skip_ws_def)
qed

lemma number_to_string_head:
  "\<exists>c r. number_to_string n = c # r \<and> (c = cu CHR ''-'' \<or> is_digit c)"
proof (cases "n < 0")
  case True
  then show ?thesis by (simp add: number_to_string_def)
next
  case False
  obtain d ds where ds: "digits_of (nat n) = d # ds"
    using digits_of_nonempty [of "nat n"] by (cases "digits_of (nat n)") auto
  then have "is_digit d" using digits_of_digits [of d "nat n"] by simp
  with ds False show ?thesis by (simp add: number_to_string_def)
qed

lemma parse_value_number_to_string:
  assumes "\<not> is_digit c" "c \<noteq> cu CHR ''.''" "c \<noteq> cu CHR ''e''" "c \<noteq> cu CHR ''E''"
  shows "parse_value (Suc k) (number_to_string n @ c # r) = Ok (JNumber n 0) (c # r)"
proof -
  obtain d ds where "number_to_string n = d # ds" and "d = cu CHR ''-'' \<or> is_digit d"
    using number_to_string_head by blast
  then have "parse_value (Suc k) (number_to_string n @ c # r)
               = parse_number (number_to_string n @ c # r)"
    using parse_value_number [of d k "ds @ c # r"] by simp
  with assms show ?thesis by (simp add: parse_number_to_string)
qed

lemma parse_value_string:
  "parse_value (Suc k) (QuoteJSONString s @ r) = Ok (JString s) r"
  by (simp add: QuoteJSONString_def skip_ws_def is_json_ws_def dquote_def cu_def
      parse_chars_quote_units [unfolded dquote_def])

lemma parse_value_bool:
  "parse_value (Suc k) ((if b then str ''true'' else str ''false'') @ r) = Ok (JBool b) r"
  by (simp add: skip_ws_def is_json_ws_def dquote_def cu_def str_def is_digit_def parse_literal_def)

lemma punct_facts:
  "\<not> is_json_ws (cu CHR '','')" "\<not> is_json_ws (cu CHR ''}'')" "\<not> is_json_ws (cu CHR '']'')"
  "\<not> is_json_ws (cu CHR ''{'')" "\<not> is_json_ws (cu CHR '':'')" "\<not> is_json_ws dquote"
  "cu CHR ''}'' \<noteq> cu CHR '',''" "cu CHR '']'' \<noteq> cu CHR '',''"
  "\<not> is_digit (cu CHR ''}'')" "cu CHR ''}'' \<noteq> cu CHR ''.''"
  "cu CHR ''}'' \<noteq> cu CHR ''e''" "cu CHR ''}'' \<noteq> cu CHR ''E''"
  "dquote \<noteq> cu CHR ''}''" "cu CHR ''{'' \<noteq> cu CHR '']''"
  by (simp_all add: cu_def is_json_ws_def is_digit_def dquote_def)

lemma parse_object:
  "parse_value (Suc n) (cu CHR ''{'' # property k v @ r)
     = bind_res (parse_members n (property k v @ r)) (\<lambda>ms r'. Ok (JObject ms) r')"
  by (simp add: property_def QuoteJSONString_def skip_ws_def punct_facts)

lemma parse_members_property:
  "parse_members (Suc n) (property k vt @ r)
     = bind_res (parse_value n (vt @ r)) (\<lambda>v r3.
         case skip_ws r3 of
           [] \<Rightarrow> Fail
         | d # r4 \<Rightarrow>
             if d = cu CHR '','' then
               bind_res (parse_members n r4) (\<lambda>ms r5. Ok ((str k, v) # ms) r5)
             else if d = cu CHR ''}'' then Ok [(str k, v)] r4
             else Fail)"
  by (simp add: property_def QuoteJSONString_def skip_ws_def punct_facts parse_chars_quote_units)

lemma parse_value_stringify_todo:
  "parse_value (Suc (Suc (Suc (Suc (Suc (Suc k)))))) (stringify_todo t @ r) = Ok (json_of_todo t) r"
  by (simp add: stringify_todo_def json_of_todo_def parse_object parse_members_property
      parse_value_string parse_value_bool parse_value_number_to_string skip_ws_def punct_facts
      del: parse_value.simps parse_members.simps)

lemma parse_value_stringify_todo_ge:
  "6 \<le> n \<Longrightarrow> parse_value n (stringify_todo t @ r) = Ok (json_of_todo t) r"
proof -
  assume "6 \<le> n"
  then obtain k where "n = 6 + k"
    using le_Suc_ex by blast
  then have "n = Suc (Suc (Suc (Suc (Suc (Suc k)))))" by simp
  then show ?thesis by (simp only: parse_value_stringify_todo)
qed

lemma parse_elements_join:
  "ts \<noteq> [] \<Longrightarrow> length ts + 6 \<le> n \<Longrightarrow>
   parse_elements n (join_comma (map stringify_todo ts) @ cu CHR '']'' # r)
     = Ok (map json_of_todo ts) r"
proof (induction ts arbitrary: n)
  case Nil
  then show ?case by simp
next
  case (Cons t ts)
  then obtain m where n: "n = Suc m" and m: "length ts + 6 \<le> m"
    by (cases n) auto
  then have v: "\<And>r'. parse_value m (stringify_todo t @ r') = Ok (json_of_todo t) r'"
    using parse_value_stringify_todo_ge by simp
  show ?case
  proof (cases ts)
    case Nil
    then show ?thesis
      using v by (simp add: n skip_ws_def punct_facts)
  next
    case (Cons u us)
    then have "parse_elements m (join_comma (map stringify_todo ts) @ cu CHR '']'' # r)
                 = Ok (map json_of_todo ts) r"
      using Cons.IH [of m] m by simp
    with Cons show ?thesis
      using v by (simp add: n skip_ws_def punct_facts)
  qed
qed

lemma stringify_todo_head: "\<exists>r. stringify_todo t = cu CHR ''{'' # r \<and> 6 \<le> length r"
  by (simp add: stringify_todo_def property_def QuoteJSONString_def)

lemma length_join_comma: "length ts \<le> length (join_comma (map stringify_todo ts))"
proof (induction ts rule: induct_list012)
  case 1
  then show ?case by simp
next
  case (2 t)
  then show ?case using stringify_todo_head [of t] by auto
next
  case (3 t u ts)
  then show ?case using stringify_todo_head [of t] by auto
qed

lemma join_comma_head:
  "ts \<noteq> [] \<Longrightarrow> \<exists>r. join_comma (map stringify_todo ts) = cu CHR ''{'' # r \<and> 6 \<le> length r"
proof (induction ts rule: induct_list012)
  case 1
  then show ?case by simp
next
  case (2 t)
  then show ?case using stringify_todo_head [of t] by auto
next
  case (3 t u ts)
  then show ?case using stringify_todo_head [of t] by auto
qed

lemma parse_value_array:
  "parse_elements n (cu CHR ''{'' # r) = Ok vs r' \<Longrightarrow>
   parse_value (Suc n) (cu CHR ''['' # cu CHR ''{'' # r) = Ok (JArray vs) r'"
  by (simp add: skip_ws_def is_json_ws_def cu_def dquote_def)

lemma parse_value_empty_array:
  "parse_value (Suc n) (cu CHR ''['' # cu CHR '']'' # r) = Ok (JArray []) r"
  by (simp add: skip_ws_def is_json_ws_def cu_def dquote_def)

lemma JSON_parse_stringify:
  "JSON_parse (JSON_stringify ts) = Inr (JArray (map json_of_todo ts))"
proof -
  define n where "n = 2 * length (JSON_stringify ts)"
  have "parse_value (Suc n) (JSON_stringify ts) = Ok (JArray (map json_of_todo ts)) []"
  proof (cases "ts = []")
    case True
    then show ?thesis
      by (simp add: JSON_stringify_def parse_value_empty_array del: parse_value.simps)
  next
    case False
    let ?j = "join_comma (map stringify_todo ts)"
    obtain r where j: "?j = cu CHR ''{'' # r" and r: "6 \<le> length r"
      using join_comma_head [OF False] by blast
    have len: "length ts \<le> length ?j" by (rule length_join_comma)
    have "length ts + 6 \<le> n"
      using len j r by (simp add: n_def JSON_stringify_def)
    then have "parse_elements n (?j @ cu CHR '']'' # []) = Ok (map json_of_todo ts) []"
      using parse_elements_join [OF False] by blast
    then have "parse_elements n (cu CHR ''{'' # r @ [cu CHR '']'']) = Ok (map json_of_todo ts) []"
      by (simp add: j)
    then have "parse_value (Suc n) (cu CHR ''['' # cu CHR ''{'' # r @ [cu CHR '']''])
                 = Ok (JArray (map json_of_todo ts)) []"
      by (rule parse_value_array)
    then show ?thesis by (simp add: JSON_stringify_def j)
  qed
  then show ?thesis
    by (simp add: JSON_parse_def n_def skip_ws_def)
qed

lemma int_of_number_0: "int_of_number n 0 = Some n"
  by (simp add: int_of_number_def)

lemma todo_of_json_of_todo:
  "is_safe_integer (createdAt t) \<Longrightarrow> todo_of_json (json_of_todo t) = Some t"
  by (simp add: todo_of_json_def json_of_todo_def int_of_number_0)

lemma those_map_Some:
  "(\<And>x. x \<in> set xs \<Longrightarrow> f (g x) = Some x) \<Longrightarrow> those (map (f \<circ> g) xs) = Some xs"
  by (induction xs) auto

lemma todos_of_json_of_todos:
  "list_all (\<lambda>t. is_safe_integer (createdAt t)) ts \<Longrightarrow>
   todos_of_json (JArray (map json_of_todo ts)) = Some ts"
  by (simp add: todos_of_json_def those_map_Some todo_of_json_of_todo list_all_iff)

lemma JSON_stringify_nonempty: "JSON_stringify ts \<noteq> []"
  by (simp add: JSON_stringify_def)

lemma loadTodos_saveTodos:
  assumes "list_all (\<lambda>t. is_safe_integer (createdAt t)) (todos saved)"
  shows "loadTodos (saveTodos saved ls) st = Inr (st\<lparr>todos := todos saved\<rparr>)"
  using assms
  by (simp add: loadTodos_def saveTodos_def JSON_stringify_nonempty JSON_parse_stringify
      todos_of_json_of_todos)

section \<open>The fuel always suffices\<close>

text \<open>
  Every successful step reads at least one code unit, so twice the length of the text, plus
  one, is more fuel than \<open>JSON_parse\<close> can use.
\<close>

lemma bind_res_Ok:
  "bind_res x f = Ok v r \<longleftrightarrow> (\<exists>y r'. x = Ok y r' \<and> f y r' = Ok v r)"
  by (cases x) auto

lemma bind_res_OutOfFuel:
  "bind_res x f = OutOfFuel \<longleftrightarrow> x = OutOfFuel \<or> (\<exists>y r'. x = Ok y r' \<and> f y r' = OutOfFuel)"
  by (cases x) auto

lemma length_skip_ws: "length (skip_ws s) \<le> length s"
  by (simp add: skip_ws_def length_dropWhile_le)

lemma skip_ws_Cons: "skip_ws s = c # r \<Longrightarrow> length r < length s"
  using length_skip_ws [of s] by simp

lemma parse_chars_step:
  "parse_chars (c # cs) = Fail \<or> parse_chars (c # cs) = Ok [] cs
   \<or> (\<exists>u t. length t \<le> length cs
          \<and> parse_chars (c # cs) = bind_res (parse_chars t) (\<lambda>x r. Ok (u # x) r))"
proof -
  define P where "P res \<longleftrightarrow> res = Fail \<or> res = Ok [] cs
      \<or> (\<exists>u t. length t \<le> length cs \<and> res = bind_res (parse_chars t) (\<lambda>x r. Ok (u # x) r))"
    for res
  have PF: "P Fail" and PO: "P (Ok [] cs)"
    by (simp_all add: P_def)
  have PB: "P (bind_res (parse_chars t) (\<lambda>x r. Ok (u # x) r))" if "length t \<le> length cs" for u t
    using that unfolding P_def by blast
  have "P (parse_chars (c # cs))"
    by (subst parse_chars.simps)
       (simp add: PF PO PB split: list.split option.split del: parse_chars.simps)
  then show ?thesis by (simp only: P_def)
qed

lemma parse_chars_consumes: "parse_chars s = Ok x r \<Longrightarrow> length r < length s"
proof (induction "length s" arbitrary: s x r rule: less_induct)
  case less
  show ?case
  proof (cases s)
    case Nil
    with less.prems show ?thesis by simp
  next
    case (Cons c cs)
    from parse_chars_step [of c cs] consider
        "parse_chars (c # cs) = Fail" | "parse_chars (c # cs) = Ok [] cs"
      | u t where "length t \<le> length cs"
          "parse_chars (c # cs) = bind_res (parse_chars t) (\<lambda>x r. Ok (u # x) r)"
      by blast
    then show ?thesis
    proof cases
      case 1
      with less.prems Cons show ?thesis by (simp del: parse_chars.simps)
    next
      case 2
      with less.prems Cons show ?thesis by (simp del: parse_chars.simps)
    next
      case 3
      with less.prems Cons have "bind_res (parse_chars t) (\<lambda>x r. Ok (u # x) r) = Ok x r"
        by (simp only:)
      then obtain y where "parse_chars t = Ok y r"
        by (auto simp: bind_res_Ok)
      with less.hyps [of t y r] 3(1) Cons show ?thesis by simp
    qed
  qed
qed

lemma parse_chars_fuel: "parse_chars s \<noteq> OutOfFuel"
proof (induction "length s" arbitrary: s rule: less_induct)
  case less
  show ?case
  proof (cases s)
    case Nil
    then show ?thesis by simp
  next
    case (Cons c cs)
    from parse_chars_step [of c cs] consider
        "parse_chars (c # cs) = Fail" | "parse_chars (c # cs) = Ok [] cs"
      | u t where "length t \<le> length cs"
          "parse_chars (c # cs) = bind_res (parse_chars t) (\<lambda>x r. Ok (u # x) r)"
      by blast
    then show ?thesis
    proof cases
      case 1
      with Cons show ?thesis by (simp del: parse_chars.simps)
    next
      case 2
      with Cons show ?thesis by (simp del: parse_chars.simps)
    next
      case 3
      with less [of t] Cons show ?thesis
        by (simp add: bind_res_OutOfFuel del: parse_chars.simps)
    qed
  qed
qed

lemma take_Cons_nonempty: "take n s = x # xs \<Longrightarrow> 0 < length s"
  by (cases s) auto

lemma parse_literal_consumes: "parse_literal s = Ok v r \<Longrightarrow> length r < length s"
  by (auto simp: parse_literal_def str_def dest!: take_Cons_nonempty split: if_splits)

lemma parse_literal_fuel: "parse_literal s \<noteq> OutOfFuel"
  by (simp add: parse_literal_def)

lemma parse_fraction_length: "parse_fraction s = Some (fs, r) \<Longrightarrow> length r \<le> length s"
  using length_dropWhile_le [of is_digit "tl s"]
  by (auto simp: parse_fraction_def split: list.splits if_splits)

lemma parse_exponent_length: "parse_exponent s = Some (e, r) \<Longrightarrow> length r \<le> length s"
proof -
  assume a: "parse_exponent s = Some (e, r)"
  have d: "\<And>t. length (dropWhile is_digit t) \<le> length t" by (rule length_dropWhile_le)
  from a show ?thesis
    using d [of "tl s"] d [of "tl (tl s)"]
    by (auto simp: parse_exponent_def Let_def split: list.splits if_splits)
qed

lemma parse_number_consumes: "parse_number s = Ok v r \<Longrightarrow> length r < length s"
proof -
  assume a: "parse_number s = Ok v r"
  obtain neg s1 where ps: "parse_sign s = (neg, s1)" by (cases "parse_sign s")
  then have l1: "length s1 \<le> length s"
    by (auto simp: parse_sign_def split: list.splits if_splits)
  from a ps have ne: "takeWhile is_digit s1 \<noteq> []"
    by (auto simp: parse_number_def Let_def split: if_splits)
  have "length (takeWhile is_digit s1) + length (dropWhile is_digit s1) = length s1"
    by (metis length_append takeWhile_dropWhile_id)
  with ne have l2: "length (dropWhile is_digit s1) < length s1"
    by (cases "takeWhile is_digit s1") auto
  from a ps obtain fs s2 e where f: "parse_fraction (dropWhile is_digit s1) = Some (fs, s2)"
      and x: "parse_exponent s2 = Some (e, r)"
    by (auto simp: parse_number_def Let_def split: if_splits option.splits)
  from parse_fraction_length [OF f] parse_exponent_length [OF x] l1 l2 show ?thesis by simp
qed

lemma parse_number_fuel: "parse_number s \<noteq> OutOfFuel"
  by (auto simp: parse_number_def Let_def split: prod.splits option.splits)

lemma parse_consumes:
  "(\<forall>s v r. parse_value n s = Ok v r \<longrightarrow> length r < length s)
   \<and> (\<forall>s vs r. parse_elements n s = Ok vs r \<longrightarrow> length r < length s)
   \<and> (\<forall>s ms r. parse_members n s = Ok ms r \<longrightarrow> length r < length s)"
proof (induction n)
  case 0
  then show ?case by simp
next
  case (Suc n)
  then have IHv: "\<And>s v r. parse_value n s = Ok v r \<Longrightarrow> length r < length s"
    and IHe: "\<And>s vs r. parse_elements n s = Ok vs r \<Longrightarrow> length r < length s"
    and IHm: "\<And>s ms r. parse_members n s = Ok ms r \<Longrightarrow> length r < length s"
    by blast+
  have v: "length r < length s" if a: "parse_value (Suc n) s = Ok v r" for s v r
  proof (cases "skip_ws s")
    case Nil
    with a show ?thesis by simp
  next
    case (Cons c t)
    then have ct: "length (c # t) \<le> length s" using length_skip_ws [of s] by simp
    consider (obj) "c = cu CHR ''{''" | (arr) "c \<noteq> cu CHR ''{''" "c = cu CHR ''[''"
      | (string) "c \<noteq> cu CHR ''{''" "c \<noteq> cu CHR ''[''" "c = dquote"
      | (num) "c \<noteq> cu CHR ''{''" "c \<noteq> cu CHR ''[''" "c \<noteq> dquote"
          "c = cu CHR ''-'' \<or> is_digit c"
      | (lit) "c \<noteq> cu CHR ''{''" "c \<noteq> cu CHR ''[''" "c \<noteq> dquote"
          "\<not> (c = cu CHR ''-'' \<or> is_digit c)"
      by blast
    then show ?thesis
    proof cases
      case obj
      show ?thesis
      proof (cases "skip_ws t")
        case Nil
        with a Cons obj show ?thesis by simp
      next
        case (Cons d t')
        then have dt: "length (d # t') \<le> length t" using length_skip_ws [of t] by simp
        show ?thesis
        proof (cases "d = cu CHR ''}''")
          case True
          with a \<open>skip_ws s = c # t\<close> obj Cons have "r = t'" by simp
          with dt ct show ?thesis by simp
        next
          case False
          with a \<open>skip_ws s = c # t\<close> obj Cons obtain ms where "parse_members n (d # t') = Ok ms r"
            by (auto simp: bind_res_Ok)
          from IHm [OF this] dt ct show ?thesis by simp
        qed
      qed
    next
      case arr
      show ?thesis
      proof (cases "skip_ws t")
        case Nil
        with a Cons arr show ?thesis by simp
      next
        case (Cons d t')
        then have dt: "length (d # t') \<le> length t" using length_skip_ws [of t] by simp
        show ?thesis
        proof (cases "d = cu CHR '']''")
          case True
          with a \<open>skip_ws s = c # t\<close> arr Cons have "r = t'" by simp
          with dt ct show ?thesis by simp
        next
          case False
          with a \<open>skip_ws s = c # t\<close> arr Cons obtain vs where "parse_elements n (d # t') = Ok vs r"
            by (auto simp: bind_res_Ok)
          from IHe [OF this] dt ct show ?thesis by simp
        qed
      qed
    next
      case string
      with a Cons obtain x where "parse_chars t = Ok x r"
        by (auto simp: bind_res_Ok)
      from parse_chars_consumes [OF this] ct show ?thesis by simp
    next
      case num
      with a Cons have "parse_number (c # t) = Ok v r" by auto
      from parse_number_consumes [OF this] ct show ?thesis by simp
    next
      case lit
      with a Cons have "parse_literal (c # t) = Ok v r" by auto
      from parse_literal_consumes [OF this] ct show ?thesis by simp
    qed
  qed
  have e: "length r < length s" if a: "parse_elements (Suc n) s = Ok vs r" for s vs r
  proof -
    from a obtain v t where pv: "parse_value n s = Ok v t"
      and rest: "(case skip_ws t of [] \<Rightarrow> Fail
                  | c # r' \<Rightarrow>
                      if c = cu CHR '','' then bind_res (parse_elements n r') (\<lambda>vs r''. Ok (v # vs) r'')
                      else if c = cu CHR '']'' then Ok [v] r' else Fail) = Ok vs r"
      by (auto simp: bind_res_Ok)
    from IHv [OF pv] have ts: "length t < length s" .
    from rest obtain c r' where sk: "skip_ws t = c # r'" by (cases "skip_ws t") auto
    then have l: "length r' < length t" by (rule skip_ws_Cons)
    show ?thesis
    proof (cases "c = cu CHR '',''")
      case True
      with rest sk obtain ws where "parse_elements n r' = Ok ws r"
        by (auto simp: bind_res_Ok)
      from IHe [OF this] l ts show ?thesis by simp
    next
      case False
      with rest sk have "r = r'" by (auto split: if_splits)
      with l ts show ?thesis by simp
    qed
  qed
  have m: "length r < length s" if a: "parse_members (Suc n) s = Ok ms r" for s ms r
  proof -
    from a obtain q t where sk: "skip_ws s = q # t" and q: "q = dquote"
      by (cases "skip_ws s") (auto split: if_splits)
    from sk have l0: "length t < length s" by (rule skip_ws_Cons)
    from a sk q obtain k r1 where pk: "parse_chars t = Ok k r1"
      and rest1: "(case skip_ws r1 of [] \<Rightarrow> Fail
           | c # r2 \<Rightarrow>
               if c = cu CHR '':'' then
                 bind_res (parse_value n r2) (\<lambda>v r3.
                   case skip_ws r3 of [] \<Rightarrow> Fail
                   | d # r4 \<Rightarrow>
                       if d = cu CHR '','' then
                         bind_res (parse_members n r4) (\<lambda>ms r5. Ok ((k, v) # ms) r5)
                       else if d = cu CHR ''}'' then Ok [(k, v)] r4 else Fail)
               else Fail) = Ok ms r"
      by (auto simp: bind_res_Ok)
    from parse_chars_consumes [OF pk] have l1: "length r1 < length t" .
    from rest1 obtain c r2 where sk1: "skip_ws r1 = c # r2" and c: "c = cu CHR '':''"
      by (cases "skip_ws r1") (auto split: if_splits)
    from sk1 have l2: "length r2 < length r1" by (rule skip_ws_Cons)
    from rest1 sk1 c obtain v r3 where pv: "parse_value n r2 = Ok v r3"
      and rest2: "(case skip_ws r3 of [] \<Rightarrow> Fail
                   | d # r4 \<Rightarrow>
                       if d = cu CHR '','' then
                         bind_res (parse_members n r4) (\<lambda>ms r5. Ok ((k, v) # ms) r5)
                       else if d = cu CHR ''}'' then Ok [(k, v)] r4 else Fail) = Ok ms r"
      by (auto simp: bind_res_Ok)
    from IHv [OF pv] have l3: "length r3 < length r2" .
    from rest2 obtain d r4 where sk3: "skip_ws r3 = d # r4" by (cases "skip_ws r3") auto
    then have l4: "length r4 < length r3" by (rule skip_ws_Cons)
    show ?thesis
    proof (cases "d = cu CHR '',''")
      case True
      with rest2 sk3 obtain ws where "parse_members n r4 = Ok ws r"
        by (auto simp: bind_res_Ok)
      from IHm [OF this] l0 l1 l2 l3 l4 show ?thesis by simp
    next
      case False
      with rest2 sk3 have "r = r4" by (auto split: if_splits)
      with l0 l1 l2 l3 l4 show ?thesis by simp
    qed
  qed
  from v e m show ?case by blast
qed

lemma parse_fuel:
  "(\<forall>s. 2 * length s < n \<longrightarrow> parse_value n s \<noteq> OutOfFuel)
   \<and> (\<forall>s. 2 * length s + 1 < n \<longrightarrow> parse_elements n s \<noteq> OutOfFuel)
   \<and> (\<forall>s. 2 * length s < n \<longrightarrow> parse_members n s \<noteq> OutOfFuel)"
proof (induction n)
  case 0
  then show ?case by simp
next
  case (Suc n)
  then have IHv: "\<And>s. 2 * length s < n \<Longrightarrow> parse_value n s \<noteq> OutOfFuel"
    and IHe: "\<And>s. 2 * length s + 1 < n \<Longrightarrow> parse_elements n s \<noteq> OutOfFuel"
    and IHm: "\<And>s. 2 * length s < n \<Longrightarrow> parse_members n s \<noteq> OutOfFuel"
    by blast+
  note consumes = parse_consumes [of n, THEN conjunct1, rule_format]
  have v: "parse_value (Suc n) s \<noteq> OutOfFuel" if b: "2 * length s < Suc n" for s
  proof
    assume a: "parse_value (Suc n) s = OutOfFuel"
    then obtain c t where sk: "skip_ws s = c # t" by (cases "skip_ws s") auto
    then have ct: "length t < length s" by (rule skip_ws_Cons)
    consider (obj) "c = cu CHR ''{''" | (arr) "c \<noteq> cu CHR ''{''" "c = cu CHR ''[''"
      | (string) "c \<noteq> cu CHR ''{''" "c \<noteq> cu CHR ''[''" "c = dquote"
      | (num) "c \<noteq> cu CHR ''{''" "c \<noteq> cu CHR ''[''" "c \<noteq> dquote"
          "c = cu CHR ''-'' \<or> is_digit c"
      | (lit) "c \<noteq> cu CHR ''{''" "c \<noteq> cu CHR ''[''" "c \<noteq> dquote"
          "\<not> (c = cu CHR ''-'' \<or> is_digit c)"
      by blast
    then show False
    proof cases
      case obj
      with a sk obtain d t' where sk': "skip_ws t = d # t'"
        and "parse_members n (d # t') = OutOfFuel"
        by (cases "skip_ws t") (auto simp: bind_res_OutOfFuel split: if_splits)
      moreover have "length (d # t') \<le> length t" using length_skip_ws [of t] sk' by simp
      ultimately show False using IHm [of "d # t'"] ct b by simp
    next
      case arr
      with a sk obtain d t' where sk': "skip_ws t = d # t'"
        and "parse_elements n (d # t') = OutOfFuel"
        by (cases "skip_ws t") (auto simp: bind_res_OutOfFuel split: if_splits)
      moreover have "length (d # t') \<le> length t" using length_skip_ws [of t] sk' by simp
      ultimately show False using IHe [of "d # t'"] ct b by simp
    next
      case string
      with a sk show False by (auto simp: bind_res_OutOfFuel parse_chars_fuel)
    next
      case num
      with a sk show False by (auto simp: parse_number_fuel)
    next
      case lit
      with a sk show False by (auto simp: parse_literal_fuel)
    qed
  qed
  have e: "parse_elements (Suc n) s \<noteq> OutOfFuel" if b: "2 * length s + 1 < Suc n" for s
  proof
    assume a: "parse_elements (Suc n) s = OutOfFuel"
    have "parse_value n s \<noteq> OutOfFuel" using IHv [of s] b by simp
    with a obtain v t where pv: "parse_value n s = Ok v t"
      and rest: "(case skip_ws t of [] \<Rightarrow> Fail
                  | c # r' \<Rightarrow>
                      if c = cu CHR '','' then bind_res (parse_elements n r') (\<lambda>vs r''. Ok (v # vs) r'')
                      else if c = cu CHR '']'' then Ok [v] r' else Fail) = OutOfFuel"
      by (auto simp: bind_res_OutOfFuel)
    from consumes [OF pv] have ts: "length t < length s" .
    from rest obtain c r' where sk: "skip_ws t = c # r'" by (cases "skip_ws t") auto
    then have l: "length r' < length t" by (rule skip_ws_Cons)
    from rest sk have "parse_elements n r' = OutOfFuel"
      by (auto simp: bind_res_OutOfFuel split: if_splits)
    then show False using IHe [of r'] l ts b by simp
  qed
  have m: "parse_members (Suc n) s \<noteq> OutOfFuel" if b: "2 * length s < Suc n" for s
  proof
    assume a: "parse_members (Suc n) s = OutOfFuel"
    then obtain q t where sk: "skip_ws s = q # t" and q: "q = dquote"
      by (cases "skip_ws s") (auto split: if_splits)
    from sk have l0: "length t < length s" by (rule skip_ws_Cons)
    from a sk q obtain k r1 where pk: "parse_chars t = Ok k r1"
      and rest1: "(case skip_ws r1 of [] \<Rightarrow> Fail
           | c # r2 \<Rightarrow>
               if c = cu CHR '':'' then
                 bind_res (parse_value n r2) (\<lambda>v r3.
                   case skip_ws r3 of [] \<Rightarrow> Fail
                   | d # r4 \<Rightarrow>
                       if d = cu CHR '','' then
                         bind_res (parse_members n r4) (\<lambda>ms r5. Ok ((k, v) # ms) r5)
                       else if d = cu CHR ''}'' then Ok [(k, v)] r4 else Fail)
               else Fail) = OutOfFuel"
      by (auto simp: bind_res_OutOfFuel parse_chars_fuel)
    from parse_chars_consumes [OF pk] have l1: "length r1 < length t" .
    from rest1 obtain c r2 where sk1: "skip_ws r1 = c # r2" and c: "c = cu CHR '':''"
      by (cases "skip_ws r1") (auto split: if_splits)
    from sk1 have l2: "length r2 < length r1" by (rule skip_ws_Cons)
    have "parse_value n r2 \<noteq> OutOfFuel" using IHv [of r2] l0 l1 l2 b by simp
    with rest1 sk1 c obtain v r3 where pv: "parse_value n r2 = Ok v r3"
      and rest2: "(case skip_ws r3 of [] \<Rightarrow> Fail
                   | d # r4 \<Rightarrow>
                       if d = cu CHR '','' then
                         bind_res (parse_members n r4) (\<lambda>ms r5. Ok ((k, v) # ms) r5)
                       else if d = cu CHR ''}'' then Ok [(k, v)] r4 else Fail) = OutOfFuel"
      by (auto simp: bind_res_OutOfFuel)
    from consumes [OF pv] have l3: "length r3 < length r2" .
    from rest2 obtain d r4 where sk3: "skip_ws r3 = d # r4" by (cases "skip_ws r3") auto
    then have l4: "length r4 < length r3" by (rule skip_ws_Cons)
    from rest2 sk3 have "parse_members n r4 = OutOfFuel"
      by (auto simp: bind_res_OutOfFuel split: if_splits)
    then show False using IHm [of r4] l0 l1 l2 l3 l4 b by simp
  qed
  from v e m show ?case by blast
qed

lemma JSON_parse_fuel: "JSON_parse s \<noteq> Inl FuelExhausted"
proof -
  have "parse_value (2 * length s + 1) s \<noteq> OutOfFuel"
    using parse_fuel [of "2 * length s + 1"] by simp
  then show ?thesis
    by (auto simp: JSON_parse_def split: res.splits)
qed

section \<open>Shared facts about the task operations\<close>

lemma filter_subseq_self: "subseq (filter P xs) xs"
  by (induction xs) auto

lemma count_list_filter:
  "count_list (filter P xs) x = (if P x then count_list xs x else 0)"
  by (induction xs) auto

lemma filter_other_ids:
  "j \<notin> id_t ` set ts \<Longrightarrow> filter (\<lambda>t. id_t t \<noteq> j) ts = ts"
  by (induction ts) auto

lemma length_filter_known_id:
  "j \<in> id_t ` set ts \<Longrightarrow> distinct (map id_t ts) \<Longrightarrow>
   length (filter (\<lambda>t. id_t t \<noteq> j) ts) + 1 = length ts"
  by (induction ts) (auto simp: filter_other_ids)

lemma toggle_twice:
  "map ((\<lambda>t. if id_t t = i then t\<lparr>completed := \<not> completed t\<rparr> else t)
        \<circ> (\<lambda>t. if id_t t = i then t\<lparr>completed := \<not> completed t\<rparr> else t)) ts
     = (ts :: todo list)"
  by (induction ts) auto

lemma ids_after_update:
  "map (id_t \<circ> (\<lambda>t. if id_t t = i then f t else t)) ts = map id_t ts"
  if "\<And>t. id_t (f t) = id_t t"
  using that by (induction ts) auto

lemma distinct_ids_filter: "distinct (map id_t ts) \<Longrightarrow> distinct (map id_t (filter P ts))"
  by (induction ts) auto

lemma example_ids: "map id_t (todos example_state) = [str ''a'', str ''b'', str ''c'']"
  by (simp add: example_state_def initial_state_def task_a_def task_b_def task_c_def)

lemma str_neq:
  "str ''d'' \<noteq> str ''a''" "str ''d'' \<noteq> str ''b''" "str ''d'' \<noteq> str ''c''"
  "str ''a'' \<noteq> str ''b''" "str ''a'' \<noteq> str ''c''" "str ''b'' \<noteq> str ''c''"
  "str ''b'' \<noteq> str ''a''" "str ''c'' \<noteq> str ''a''" "str ''c'' \<noteq> str ''b''"
  "str ''a'' \<noteq> []" "str ''b'' \<noteq> []"
  by (simp_all add: str_def cu_def)

lemma trim_examples:
  "trim (str '' Walk dog '') = str ''Walk dog''" "trim (str ''  '') = []" "trim [] = []"
  "trim (str ''Buy oat milk'') = str ''Buy oat milk''"
  by (simp_all add: trim_def str_def cu_def is_ws_def)

lemma str_nonempty: "str ''Walk dog'' \<noteq> []" "str ''Buy oat milk'' \<noteq> []"
  by (simp_all add: str_def)

section \<open>The claims\<close>




text \<open>
  C2, as amended.  The load effect leaves the state as it is (the empty collection at process
  start) when nothing is stored under \<open>todos\<close> or the stored value is the empty string.  For any
  other stored text, whatever \<open>JSON.parse\<close> raises is raised by the effect: nothing catches it.
  The model's fuel never runs out in it.
\<close>

theorem loadTodos_spec:
  "(ls (str ''todos'') = None \<or> ls (str ''todos'') = Some [] \<longrightarrow> loadTodos ls st = Inr st)
   \<and> (\<forall>s e. ls (str ''todos'') = Some s \<and> s \<noteq> [] \<and> JSON_parse s = Inl e
          \<longrightarrow> loadTodos ls st = Inl e)
   \<and> loadTodos ls st \<noteq> Inl FuelExhausted"
  using JSON_parse_fuel
  by (auto simp: loadTodos_def split: option.splits sum.splits)

theorem loadTodos_spec_witness:
  "loadTodos Map.empty initial_state = Inr initial_state
   \<and> loadTodos [str ''todos'' \<mapsto> []] initial_state = Inr initial_state
   \<and> JSON_parse (str ''[1,'') = Inl SyntaxError
   \<and> loadTodos [str ''todos'' \<mapsto> str ''[1,''] initial_state = Inl SyntaxError"
proof -
  have p: "JSON_parse (str ''[1,'') = Inl SyntaxError" by code_simp
  have n: "str ''[1,'' \<noteq> []" by (simp add: str_def)
  show ?thesis
    using loadTodos_spec [of Map.empty initial_state]
      loadTodos_spec [of "[str ''todos'' \<mapsto> []]" initial_state]
      loadTodos_spec [of "[str ''todos'' \<mapsto> str ''[1,'']" initial_state] p n
    by simp
qed

text \<open>
  The claim as stated fails: with the text \<open>{not json\<close> stored under \<open>todos\<close>, the load effect
  raises \<open>SyntaxError\<close> instead of yielding the empty collection.
\<close>

theorem loadTodos_malformed_counterexample:
  "loadTodos [str ''todos'' \<mapsto> str ''{not json''] initial_state = Inl SyntaxError"
  by code_simp

text \<open>
  C3.  Saving a collection and loading it again gives the same collection, for every
  collection whose timestamps are whole numbers a JavaScript number holds exactly.  No
  condition on ids or texts is needed.
\<close>

theorem load_save_roundtrip:
  assumes "list_all (\<lambda>t. is_safe_integer (createdAt t)) (todos saved)"
  shows "loadTodos (saveTodos saved ls) st = Inr (st\<lparr>todos := todos saved\<rparr>)"
  using assms by (rule loadTodos_saveTodos)

theorem load_save_roundtrip_witness:
  "list_all (\<lambda>t. is_safe_integer (createdAt t)) (todos example_state)
   \<and> loadTodos (saveTodos example_state Map.empty) initial_state = Inr example_state"
proof -
  have h: "list_all (\<lambda>t. is_safe_integer (createdAt t)) (todos example_state)"
    by (simp add: example_state_def task_a_def task_b_def task_c_def is_safe_integer_def)
  have "initial_state\<lparr>todos := todos example_state\<rparr> = example_state"
    by (simp add: example_state_def)
  with load_save_roundtrip [OF h, of Map.empty initial_state] h show ?thesis by simp
qed

text \<open>
  C4, as amended.  The invariant (ids pairwise distinct, no empty text) holds of the empty
  collection and is kept by toggling, saving an edit, deleting and clearing completed tasks,
  and by adding a task whose generated id is new to the collection.  Loading keeps it when
  nothing is stored, and when the stored text is what the save effect wrote for a collection
  that satisfied it.
\<close>

theorem store_inv_preserved:
  "store_inv (todos initial_state)
   \<and> (store_inv (todos st) \<and> uuid \<notin> set (map id_t (todos st))
        \<longrightarrow> store_inv (todos (addTodo uuid now st)))
   \<and> (store_inv (todos st) \<longrightarrow> store_inv (todos (toggleTodo i st)))
   \<and> (store_inv (todos st) \<longrightarrow> store_inv (todos (saveEdit st)))
   \<and> (store_inv (todos st) \<longrightarrow> store_inv (todos (deleteTodo i st)))
   \<and> (store_inv (todos st) \<longrightarrow> store_inv (todos (clearCompleted st)))
   \<and> (ls (str ''todos'') = None \<longrightarrow> loadTodos ls initial_state = Inr initial_state)
   \<and> (store_inv (todos saved) \<and> list_all (\<lambda>t. is_safe_integer (createdAt t)) (todos saved)
        \<longrightarrow> (\<exists>st'. loadTodos (saveTodos saved ls) initial_state = Inr st'
                  \<and> store_inv (todos st')))"
proof -
  have init: "store_inv (todos initial_state)"
    by (simp add: store_inv_def initial_state_def)
  have add: "store_inv (todos st) \<and> uuid \<notin> set (map id_t (todos st))
               \<longrightarrow> store_inv (todos (addTodo uuid now st))"
    by (auto simp: store_inv_def addTodo_def Let_def)
  have toggle: "store_inv (todos st) \<longrightarrow> store_inv (todos (toggleTodo i st))"
    by (auto simp: store_inv_def toggleTodo_def ids_after_update list_all_iff)
  have edit: "store_inv (todos st) \<longrightarrow> store_inv (todos (saveEdit st))"
    by (auto simp: store_inv_def saveEdit_def ids_after_update list_all_iff
        split: option.splits)
  have del: "store_inv (todos st) \<longrightarrow> store_inv (todos (deleteTodo i st))"
    by (auto simp: store_inv_def deleteTodo_def distinct_ids_filter list_all_iff)
  have clear: "store_inv (todos st) \<longrightarrow> store_inv (todos (clearCompleted st))"
    by (auto simp: store_inv_def clearCompleted_def distinct_ids_filter list_all_iff)
  have absent: "ls (str ''todos'') = None \<longrightarrow> loadTodos ls initial_state = Inr initial_state"
    by (simp add: loadTodos_def)
  have load: "store_inv (todos saved)
                \<and> list_all (\<lambda>t. is_safe_integer (createdAt t)) (todos saved)
              \<longrightarrow> (\<exists>st'. loadTodos (saveTodos saved ls) initial_state = Inr st'
                        \<and> store_inv (todos st'))"
    by (simp add: loadTodos_saveTodos)
  from init add toggle edit del clear absent load show ?thesis by blast
qed

theorem store_inv_preserved_witness:
  "store_inv (todos busy_state)
   \<and> str ''d'' \<notin> set (map id_t (todos busy_state))
   \<and> list_all (\<lambda>t. is_safe_integer (createdAt t)) (todos busy_state)
   \<and> (Map.empty :: storage) (str ''todos'') = None
   \<and> todos (addTodo (str ''d'') 4000 busy_state)
       = [task_a, task_b, task_c,
          \<lparr>id_t = str ''d'', text_t = str ''Walk dog'', completed = False, createdAt = 4000\<rparr>]
   \<and> store_inv (todos (addTodo (str ''d'') 4000 busy_state))
   \<and> todos (toggleTodo (str ''a'') busy_state)
       = [task_a\<lparr>completed := True\<rparr>, task_b, task_c]
   \<and> store_inv (todos (toggleTodo (str ''a'') busy_state))
   \<and> todos (saveEdit busy_state) = [task_a\<lparr>text_t := str ''Buy oat milk''\<rparr>, task_b, task_c]
   \<and> store_inv (todos (saveEdit busy_state))
   \<and> todos (deleteTodo (str ''a'') busy_state) = [task_b, task_c]
   \<and> store_inv (todos (deleteTodo (str ''a'') busy_state))
   \<and> todos (clearCompleted busy_state) = [task_a, task_c]
   \<and> store_inv (todos (clearCompleted busy_state))
   \<and> loadTodos Map.empty initial_state = Inr initial_state
   \<and> (\<exists>st'. loadTodos (saveTodos busy_state Map.empty) initial_state = Inr st'
            \<and> store_inv (todos st'))"
proof -
  have t: "todos busy_state = [task_a, task_b, task_c]"
    by (simp add: busy_state_def example_state_def)
  have ids: "id_t task_a = str ''a''" "id_t task_b = str ''b''" "id_t task_c = str ''c''"
    by (simp_all add: task_a_def task_b_def task_c_def)
  have flags: "\<not> completed task_a" "completed task_b" "\<not> completed task_c"
    by (simp_all add: task_a_def task_b_def task_c_def)
  have inv: "store_inv (todos busy_state)"
    by (simp add: t store_inv_def task_a_def task_b_def task_c_def str_def cu_def)
  have fresh: "str ''d'' \<notin> set (map id_t (todos busy_state))"
    by (simp add: t ids str_neq)
  have safe: "list_all (\<lambda>t. is_safe_integer (createdAt t)) (todos busy_state)"
    by (simp add: t task_a_def task_b_def task_c_def is_safe_integer_def)
  have add: "todos (addTodo (str ''d'') 4000 busy_state)
       = [task_a, task_b, task_c,
          \<lparr>id_t = str ''d'', text_t = str ''Walk dog'', completed = False, createdAt = 4000\<rparr>]"
    by (simp add: addTodo_def Let_def busy_state_def example_state_def trim_examples
        str_nonempty)
  have toggle: "todos (toggleTodo (str ''a'') busy_state)
       = [task_a\<lparr>completed := True\<rparr>, task_b, task_c]"
    by (simp add: toggleTodo_def t ids flags str_neq)
  have edit: "todos (saveEdit busy_state)
       = [task_a\<lparr>text_t := str ''Buy oat milk''\<rparr>, task_b, task_c]"
    by (simp add: saveEdit_def busy_state_def example_state_def ids trim_examples str_neq
        str_nonempty)
  have del: "todos (deleteTodo (str ''a'') busy_state) = [task_b, task_c]"
    by (simp add: deleteTodo_def t ids str_neq)
  have clear: "todos (clearCompleted busy_state) = [task_a, task_c]"
    by (simp add: clearCompleted_def t flags)
  show ?thesis
    using store_inv_preserved
      [of busy_state "str ''d''" 4000 "str ''a''" Map.empty busy_state]
      inv fresh safe add toggle edit del clear
    by simp
qed

text \<open>
  The claim as stated fails for loading: the stored text below is a well-formed task array,
  the load effect accepts it unchecked, and the task it yields has an empty text.
\<close>

theorem load_breaks_inv_counterexample:
  \<open>loadTodos
     [str ''todos'' \<mapsto> str ''[{"id":"a","text":"","completed":false,"createdAt":1000}]'']
     initial_state
   = Inr (initial_state
       \<lparr>todos := [\<lparr>id_t = str ''a'', text_t = [], completed = False, createdAt = 1000\<rparr>]\<rparr>)
   \<and> \<not> store_inv [\<lparr>id_t = str ''a'', text_t = [], completed = False, createdAt = 1000\<rparr>]\<close>
  by code_simp

text \<open>
  C5.  Clearing completed tasks keeps exactly the tasks that are not completed: the result
  is the collection filtered by that test, hence a subsequence of it (order kept, tasks
  themselves unchanged), a task of the collection survives if and only if it is not completed,
  and each surviving task occurs as often as before.
\<close>

theorem clearCompleted_spec:
  "todos (clearCompleted st) = filter (\<lambda>t. \<not> completed t) (todos st)
   \<and> subseq (todos (clearCompleted st)) (todos st)
   \<and> (\<forall>t \<in> set (todos st). t \<in> set (todos (clearCompleted st)) \<longleftrightarrow> \<not> completed t)
   \<and> (\<forall>t. count_list (todos (clearCompleted st)) t
            = (if completed t then 0 else count_list (todos st) t))"
  by (simp add: clearCompleted_def filter_subseq_self count_list_filter)

theorem clearCompleted_spec_witness:
  "todos (clearCompleted example_state) = [task_a, task_c]
   \<and> subseq [task_a, task_c] (todos example_state)
   \<and> task_b \<in> set (todos example_state) \<and> task_b \<notin> set (todos (clearCompleted example_state))"
proof -
  have c: "\<not> completed task_a" "completed task_b" "\<not> completed task_c"
    by (simp_all add: task_a_def task_b_def task_c_def)
  have t: "todos example_state = [task_a, task_b, task_c]"
    by (simp add: example_state_def)
  have e: "todos (clearCompleted example_state) = [task_a, task_c]"
    using clearCompleted_spec [of example_state] c t by simp
  have "task_b \<in> set (todos example_state)" using t by simp
  with clearCompleted_spec [of example_state] c e show ?thesis by auto
qed

text \<open>
  C6.  In both forms of the view, plain and sorted, the tasks shown under \<open>active\<close> together
  with those shown under \<open>completed\<close> are, as sets, the tasks shown under \<open>all\<close>, and no task is
  shown under both.
\<close>

theorem view_partition:
  "set (filteredTodos (st\<lparr>filter_t := ActiveF\<rparr>))
       \<union> set (filteredTodos (st\<lparr>filter_t := CompletedF\<rparr>))
     = set (filteredTodos (st\<lparr>filter_t := AllF\<rparr>))
   \<and> set (filteredTodos (st\<lparr>filter_t := ActiveF\<rparr>))
       \<inter> set (filteredTodos (st\<lparr>filter_t := CompletedF\<rparr>)) = {}
   \<and> set (filteredTodos_sorted (st\<lparr>filter_t := ActiveF\<rparr>))
       \<union> set (filteredTodos_sorted (st\<lparr>filter_t := CompletedF\<rparr>))
     = set (filteredTodos_sorted (st\<lparr>filter_t := AllF\<rparr>))
   \<and> set (filteredTodos_sorted (st\<lparr>filter_t := ActiveF\<rparr>))
       \<inter> set (filteredTodos_sorted (st\<lparr>filter_t := CompletedF\<rparr>)) = {}"
  by (auto simp: filteredTodos_def filteredTodos_sorted_def set_array_sort filterPred_def)

theorem view_partition_witness:
  "set (filteredTodos (example_state\<lparr>filter_t := ActiveF\<rparr>))
       \<union> set (filteredTodos (example_state\<lparr>filter_t := CompletedF\<rparr>))
     = {task_a, task_b, task_c}
   \<and> set (filteredTodos_sorted (example_state\<lparr>filter_t := ActiveF\<rparr>))
       \<inter> set (filteredTodos_sorted (example_state\<lparr>filter_t := CompletedF\<rparr>)) = {}"
proof -
  have "filteredTodos (example_state\<lparr>filter_t := AllF\<rparr>) = [task_a, task_b, task_c]"
    by (simp add: filteredTodos_def filterPred_def example_state_def)
  with view_partition [of example_state] show ?thesis by simp
qed

text \<open>
  C7, as amended.  In an edit session on a task id (a non-empty string) whose draft trims to
  a non-empty text, \<open>saveEdit\<close> gives every task with that id the trimmed draft as its text,
  leaves the other tasks and the length of the collection alone, and ends the session.  When
  the draft trims to the empty string \<open>saveEdit\<close> changes nothing and the session stays open.
  \<open>cancelEdit\<close> ends the session and leaves the collection alone.
\<close>

theorem saveEdit_cancelEdit_spec:
  "(editingId st = Some i \<and> i \<noteq> [] \<and> trim (editText st) \<noteq> [] \<longrightarrow>
      editingId (saveEdit st) = None
      \<and> length (todos (saveEdit st)) = length (todos st)
      \<and> (\<forall>k < length (todos st).
            todos (saveEdit st) ! k
              = (if id_t (todos st ! k) = i then (todos st ! k)\<lparr>text_t := trim (editText st)\<rparr>
                 else todos st ! k)))
   \<and> (trim (editText st) = [] \<longrightarrow> saveEdit st = st)
   \<and> editingId (cancelEdit st) = None
   \<and> todos (cancelEdit st) = todos st"
  by (auto simp: saveEdit_def cancelEdit_def split: option.splits)

theorem saveEdit_cancelEdit_spec_witness:
  "editingId (example_state\<lparr>editingId := Some (str ''a''), editText := str ''Buy oat milk''\<rparr>)
     = Some (str ''a'')
   \<and> str ''a'' \<noteq> []
   \<and> trim (editText (example_state\<lparr>editingId := Some (str ''a''), editText := str ''Buy oat milk''\<rparr>))
       \<noteq> []
   \<and> editingId (saveEdit (example_state\<lparr>editingId := Some (str ''a''),
                                          editText := str ''Buy oat milk''\<rparr>)) = None
   \<and> todos (saveEdit (example_state\<lparr>editingId := Some (str ''a''),
                                      editText := str ''Buy oat milk''\<rparr>)) ! 0
       = task_a\<lparr>text_t := str ''Buy oat milk''\<rparr>
   \<and> trim (editText (example_state\<lparr>editingId := Some (str ''a''), editText := str ''  ''\<rparr>)) = []
   \<and> saveEdit (example_state\<lparr>editingId := Some (str ''a''), editText := str ''  ''\<rparr>)
       = example_state\<lparr>editingId := Some (str ''a''), editText := str ''  ''\<rparr>"
proof -
  let ?s = "example_state\<lparr>editingId := Some (str ''a''), editText := str ''Buy oat milk''\<rparr>"
  let ?e = "example_state\<lparr>editingId := Some (str ''a''), editText := str ''  ''\<rparr>"
  have a: "trim (editText ?s) = str ''Buy oat milk''" by (simp add: trim_examples)
  have b: "str ''Buy oat milk'' \<noteq> []" by (simp add: str_def)
  have c: "trim (editText ?e) = []" by (simp add: trim_examples)
  have d: "todos ?s ! 0 = task_a" "0 < length (todos ?s)" "id_t task_a = str ''a''"
    by (simp_all add: example_state_def task_a_def)
  show ?thesis
    using saveEdit_cancelEdit_spec [of ?s "str ''a''"] saveEdit_cancelEdit_spec [of ?e "str ''a''"]
      a b c d
    by (simp add: str_neq)
qed

text \<open>
  The claim as stated fails: in an edit session whose draft is two spaces, \<open>saveEdit\<close> does not
  return the session to idle.
\<close>

theorem saveEdit_blank_draft_counterexample:
  "editingId (saveEdit (example_state\<lparr>editingId := Some (str ''a''), editText := str ''  ''\<rparr>))
     = Some (str ''a'')"
  by (simp add: saveEdit_def trim_examples)

text \<open>
  C8, as amended.  Deleting an id no task has changes nothing.  After deleting, no task has
  the id, and the count has fallen by the number of tasks that carried it: by exactly one in a
  collection with pairwise distinct ids.
\<close>

theorem deleteTodo_spec:
  "(i \<notin> set (map id_t (todos st)) \<longrightarrow> deleteTodo i st = st)
   \<and> i \<notin> set (map id_t (todos (deleteTodo i st)))
   \<and> (i \<in> set (map id_t (todos st)) \<and> distinct (map id_t (todos st)) \<longrightarrow>
        length (todos (deleteTodo i st)) + 1 = length (todos st))
   \<and> length (todos (deleteTodo i st)) + length (filter (\<lambda>t. id_t t = i) (todos st))
       = length (todos st)"
  using filter_other_ids [of i "todos st"] length_filter_known_id [of i "todos st"]
    sum_length_filter_compl [of "\<lambda>t. id_t t = i" "todos st"]
  by (auto simp: deleteTodo_def)

theorem deleteTodo_spec_witness:
  "str ''d'' \<notin> set (map id_t (todos example_state))
   \<and> deleteTodo (str ''d'') example_state = example_state
   \<and> str ''b'' \<in> set (map id_t (todos example_state))
   \<and> distinct (map id_t (todos example_state))
   \<and> length (todos (deleteTodo (str ''b'') example_state)) + 1 = 3
   \<and> str ''b'' \<notin> set (map id_t (todos (deleteTodo (str ''b'') example_state)))"
proof -
  have l: "length (todos example_state) = 3" by (simp add: example_state_def)
  have d: "distinct (map id_t (todos example_state))"
    using example_ids by (simp add: str_neq)
  have m: "str ''b'' \<in> set (map id_t (todos example_state))"
    using example_ids by simp
  have n: "str ''d'' \<notin> set (map id_t (todos example_state))"
    using example_ids by (simp add: str_neq)
  show ?thesis
    using deleteTodo_spec [of "str ''d''" example_state]
      deleteTodo_spec [of "str ''b''" example_state] l d m n
    by simp
qed

text \<open>
  The claim as stated fails: the load effect accepts a stored collection in which two tasks
  share the id \<open>a\<close>, and deleting \<open>a\<close> from it lowers the count from two to zero.
\<close>

theorem deleteTodo_twin_counterexample:
  \<open>loadTodos
     [str ''todos'' \<mapsto>
        str ''[{"id":"a","text":"Buy milk","completed":false,"createdAt":1000},''
        @ str ''{"id":"a","text":"Pay rent","completed":true,"createdAt":2000}]'']
     initial_state
   = Inr twin_state
   \<and> str ''a'' \<in> set (map id_t (todos twin_state))
   \<and> length (todos twin_state) = 2
   \<and> length (todos (deleteTodo (str ''a'') twin_state)) = 0\<close>
  by code_simp

text \<open>
  C9.  Under the filter \<open>all\<close> the filter step keeps every task in the order of the
  collection: the variants without sorting return the collection as it is, and the variant
  with sorting returns that same sequence sorted.  The sorted sequence holds the same tasks
  (each as often as in the collection), with incomplete tasks first and, within each group,
  newest first; tasks with equal completion flag and creation time keep their relative order,
  and a collection that is already arranged so is returned as it is.
\<close>

theorem view_all_spec:
  "filter_t st = AllF \<longrightarrow>
     filteredTodos st = todos st
     \<and> filteredTodos_sorted st = array_sort compareTodos (todos st)
     \<and> mset (filteredTodos_sorted st) = mset (todos st)
     \<and> sorted_wrt view_order (filteredTodos_sorted st)
     \<and> (\<forall>c k. filter (\<lambda>t. completed t = c \<and> createdAt t = k) (filteredTodos_sorted st)
               = filter (\<lambda>t. completed t = c \<and> createdAt t = k) (todos st))
     \<and> (sorted_wrt view_order (todos st) \<longrightarrow> filteredTodos_sorted st = todos st)"
  by (simp add: filteredTodos_def filteredTodos_sorted_def filterPred_def mset_array_sort
      sorted_array_sort stable_array_sort array_sort_sorted)

theorem view_all_spec_witness:
  "filter_t example_state = AllF
   \<and> filteredTodos example_state = [task_a, task_b, task_c]
   \<and> filteredTodos_sorted example_state = [task_c, task_a, task_b]
   \<and> mset (filteredTodos_sorted example_state) = mset [task_a, task_b, task_c]
   \<and> sorted_wrt view_order (filteredTodos_sorted example_state)
   \<and> sorted_wrt view_order (todos (example_state\<lparr>todos := [task_c, task_a, task_b]\<rparr>))
   \<and> filteredTodos_sorted (example_state\<lparr>todos := [task_c, task_a, task_b]\<rparr>)
       = [task_c, task_a, task_b]"
proof -
  let ?s = "example_state\<lparr>todos := [task_c, task_a, task_b]\<rparr>"
  have f: "filter_t example_state = AllF" "todos example_state = [task_a, task_b, task_c]"
    "filter_t ?s = AllF"
    by (simp_all add: example_state_def initial_state_def)
  have o: "sorted_wrt view_order [task_c, task_a, task_b]"
    by (simp add: view_order_def task_a_def task_b_def task_c_def)
  have a: "array_sort compareTodos [task_a, task_b, task_c] = [task_c, task_a, task_b]"
    by (simp add: array_sort_def compareTodos_def task_a_def task_b_def task_c_def)
  from view_all_spec [of example_state] f(1)
  have A: "filteredTodos example_state = todos example_state"
    and B: "filteredTodos_sorted example_state = array_sort compareTodos (todos example_state)"
    and C: "mset (filteredTodos_sorted example_state) = mset (todos example_state)"
    and D: "sorted_wrt view_order (filteredTodos_sorted example_state)"
    by blast+
  from view_all_spec [of ?s] f(3)
  have E: "sorted_wrt view_order (todos ?s) \<longrightarrow> filteredTodos_sorted ?s = todos ?s"
    by blast
  have t: "todos ?s = [task_c, task_a, task_b]" by simp
  from E o t have F: "filteredTodos_sorted ?s = [task_c, task_a, task_b]" by simp
  from A B C D F f o a t show ?thesis by simp
qed

text \<open>
  C10.  Toggling keeps the length and the order of the collection: position by position the
  id, the text and the creation time are the same, and the completed flag is negated where the
  id is the given one and the same elsewhere.  Toggling the same id twice gives the original
  state back.
\<close>

theorem toggleTodo_frame:
  "length (todos (toggleTodo i st)) = length (todos st)
   \<and> map id_t (todos (toggleTodo i st)) = map id_t (todos st)
   \<and> map text_t (todos (toggleTodo i st)) = map text_t (todos st)
   \<and> map createdAt (todos (toggleTodo i st)) = map createdAt (todos st)
   \<and> (\<forall>k < length (todos st).
        completed (todos (toggleTodo i st) ! k)
          = (if id_t (todos st ! k) = i then \<not> completed (todos st ! k)
             else completed (todos st ! k)))
   \<and> toggleTodo i (toggleTodo i st) = st"
proof -
  have "toggleTodo i (toggleTodo i st) = st"
    by (simp add: toggleTodo_def toggle_twice)
  then show ?thesis by (simp add: toggleTodo_def)
qed

theorem toggleTodo_frame_witness:
  "length (todos (toggleTodo (str ''a'') example_state)) = 3
   \<and> map id_t (todos (toggleTodo (str ''a'') example_state)) = [str ''a'', str ''b'', str ''c'']
   \<and> completed (todos (toggleTodo (str ''a'') example_state) ! 0) = True
   \<and> completed (todos (toggleTodo (str ''a'') example_state) ! 1) = True
   \<and> toggleTodo (str ''a'') (toggleTodo (str ''a'') example_state) = example_state"
proof -
  have t: "todos example_state = [task_a, task_b, task_c]" by (simp add: example_state_def)
  have f: "id_t task_a = str ''a''" "id_t task_b = str ''b''" "\<not> completed task_a"
    "completed task_b"
    by (simp_all add: task_a_def task_b_def)
  show ?thesis
    using toggleTodo_frame [of "str ''a''" example_state] example_ids t f
    by (simp add: str_neq)
qed

end
